theory Spec2Isabelle
  imports Main
begin

section \<open>Pages and the disk backend\<close>

text \<open>
  The buffer pool of \<^verbatim>\<open>src/buffer/buffer_pool_manager_instance.cpp\<close> and the replacer of
  \<^verbatim>\<open>src/buffer/lru_replacer.cpp\<close>, as functions on an explicit state. Every public method
  runs under the manager's latch, so a method is one atomic step of the model.

  Frame indices are the indices of the array \<^verbatim>\<open>pages_\<close>; the constructor hands out
  exactly \<open>0 .. pool_size - 1\<close>, and the model takes them as natural numbers.
\<close>

type_synonym page_id_t = int
type_synonym frame_id_t = nat
type_synonym page_data = "nat list"

text \<open>
  Modelled from the spec: the declarations of \<^verbatim>\<open>page_id_t\<close> and \<^verbatim>\<open>INVALID_PAGE_ID\<close>
  (\<^verbatim>\<open>common/config.h\<close>) are not among the sources. The spec calls a page identifier an
  integer with one reserved sentinel value meaning "no page"; identifiers are unbounded
  integers here and the sentinel is a negative one.
\<close>

definition INVALID_PAGE_ID :: page_id_t where
  "INVALID_PAGE_ID = - 1"

text \<open>
  Modelled from the spec: the class \<^verbatim>\<open>Page\<close> (\<^verbatim>\<open>storage/page/page.h\<close>) is not among the
  sources. A frame is a byte buffer with the resident page identifier, the pin count and
  the dirty flag; a new frame holds no page, is unpinned and clean, and \<^verbatim>\<open>ResetMemory\<close>
  zeroes the buffer.
\<close>

record Page =
  data :: page_data
  page_id :: page_id_t
  pin_count :: int
  is_dirty :: bool

definition ResetMemory :: "Page \<Rightarrow> Page" where
  "ResetMemory p = p\<lparr>data := replicate (length (data p)) 0\<rparr>"

definition new_Page :: "nat \<Rightarrow> Page" where
  "new_Page sz = \<lparr>data = replicate sz 0, page_id = INVALID_PAGE_ID, pin_count = 0, is_dirty = False\<rparr>"

text \<open>
  Modelled from the spec: the disk manager is an external collaborator. \<^verbatim>\<open>WritePage\<close>
  persists a buffer under an identifier, \<^verbatim>\<open>ReadPage\<close> returns the persisted bytes. The
  model also records every call, in order.
\<close>

datatype disk_call = ReadCall page_id_t | WriteCall page_id_t page_data

record DiskManager =
  stored :: "page_id_t \<Rightarrow> page_data"
  calls :: "disk_call list"

definition WritePage :: "DiskManager \<Rightarrow> page_id_t \<Rightarrow> page_data \<Rightarrow> DiskManager" where
  "WritePage d p buf = d\<lparr>stored := (stored d)(p := buf), calls := calls d @ [WriteCall p buf]\<rparr>"

definition ReadPage :: "DiskManager \<Rightarrow> page_id_t \<Rightarrow> page_data \<times> DiskManager" where
  "ReadPage d p = (stored d p, d\<lparr>calls := calls d @ [ReadCall p]\<rparr>)"

section \<open>The LRU replacer\<close>

text \<open>
  \<^verbatim>\<open>pin_lists_\<close> is a \<^verbatim>\<open>std::list\<close>; its front is the head of the HOL list.
  \<^verbatim>\<open>pin_map_table_\<close> maps a frame to an iterator into that list. The code stores only two
  kinds of iterator: \<^verbatim>\<open>begin()\<close> right after \<^verbatim>\<open>emplace_front(frame_id)\<close>, which stays
  the iterator of that frame's own node until the node is erased, and \<^verbatim>\<open>end()\<close>.
  So an entry of the index is one of two values, and erasing the node an entry points to
  removes the frame from the list (the list never holds a frame twice, see \<open>replacer_inv\<close>
  below).

  The file holds two copies of the class; the second one keeps a counter per frame in
  addition. The model is the first copy (lines 18 to 63 of the file).
\<close>

datatype list_iterator = It_node | It_end

record LRUReplacer =
  num_pages :: nat
  pin_lists :: "frame_id_t list"
  pin_map_table :: "frame_id_t \<rightharpoonup> list_iterator"

definition new_LRUReplacer :: "nat \<Rightarrow> LRUReplacer" where
  "new_LRUReplacer n = \<lparr>num_pages = n, pin_lists = [], pin_map_table = Map.empty\<rparr>"

definition Victim :: "LRUReplacer \<Rightarrow> frame_id_t option \<times> LRUReplacer" where
  "Victim r =
     (if length (pin_lists r) > 0
      then (Some (last (pin_lists r)),
            r\<lparr>pin_map_table := (pin_map_table r)(last (pin_lists r) := None),
              pin_lists := butlast (pin_lists r)\<rparr>)
      else (None, r))"

definition Pin :: "LRUReplacer \<Rightarrow> frame_id_t \<Rightarrow> LRUReplacer" where
  "Pin r frame_id =
     (case pin_map_table r frame_id of
        Some It_node \<Rightarrow>
          r\<lparr>pin_lists := remove1 frame_id (pin_lists r),
            pin_map_table := (pin_map_table r)(frame_id \<mapsto> It_end)\<rparr>
      | Some It_end \<Rightarrow> r
      | None \<Rightarrow> r)"

definition Unpin :: "LRUReplacer \<Rightarrow> frame_id_t \<Rightarrow> LRUReplacer" where
  "Unpin r frame_id =
     (if pin_map_table r frame_id = None \<or> pin_map_table r frame_id = Some It_end
      then (if length (pin_lists r) < num_pages r
            then r\<lparr>pin_lists := frame_id # pin_lists r,
                   pin_map_table := (pin_map_table r)(frame_id \<mapsto> It_node)\<rparr>
            else r)
      else r)"

definition Size :: "LRUReplacer \<Rightarrow> nat" where
  "Size r = length (pin_lists r)"

section \<open>The buffer pool manager instance\<close>

record BufferPoolManagerInstance =
  pool_size :: nat
  num_instances :: nat
  instance_index :: nat
  next_page_id :: page_id_t
  pages :: "Page list"
  replacer :: LRUReplacer
  free_list :: "frame_id_t list"
  page_table :: "page_id_t \<rightharpoonup> frame_id_t"
  disk_manager :: DiskManager

text \<open>
  The constructor. A failed \<^verbatim>\<open>BUSTUB_ASSERT\<close> aborts the process: no instance exists
  (\<open>None\<close>). The buffer size of a frame and the disk are parameters.
\<close>

definition new_BufferPoolManagerInstance ::
  "nat \<Rightarrow> nat \<Rightarrow> nat \<Rightarrow> nat \<Rightarrow> DiskManager \<Rightarrow> BufferPoolManagerInstance option" where
  "new_BufferPoolManagerInstance sz n N i d =
     (if 0 < N \<and> i < N
      then Some \<lparr>pool_size = n, num_instances = N, instance_index = i,
                 next_page_id = int i,
                 pages = replicate n (new_Page sz),
                 replacer = new_LRUReplacer n,
                 free_list = [0..<n],
                 page_table = Map.empty,
                 disk_manager = d\<rparr>
      else None)"

definition ValidatePageId :: "BufferPoolManagerInstance \<Rightarrow> page_id_t \<Rightarrow> bool" where
  "ValidatePageId s p = (p mod int (num_instances s) = int (instance_index s))"

text \<open>\<^verbatim>\<open>AllocatePage\<close>: \<open>None\<close> is the failed assertion of \<^verbatim>\<open>ValidatePageId\<close>.\<close>

definition AllocatePage ::
  "BufferPoolManagerInstance \<Rightarrow> (page_id_t \<times> BufferPoolManagerInstance) option" where
  "AllocatePage s =
     (let p = next_page_id s;
          s' = s\<lparr>next_page_id := next_page_id s + int (num_instances s)\<rparr>
      in if ValidatePageId s' p then Some (p, s') else None)"

definition FlushPgImp ::
  "BufferPoolManagerInstance \<Rightarrow> page_id_t \<Rightarrow> bool \<times> BufferPoolManagerInstance" where
  "FlushPgImp s p =
     (case page_table s p of
        None \<Rightarrow> (False, s)
      | Some f \<Rightarrow>
          if p = INVALID_PAGE_ID then (False, s)
          else if is_dirty (pages s ! f)
          then (True, s\<lparr>disk_manager := WritePage (disk_manager s) p (data (pages s ! f)),
                        pages := (pages s)[f := (pages s ! f)\<lparr>is_dirty := False\<rparr>]\<rparr>)
          else (True, s))"

text \<open>One iteration of the loop of \<^verbatim>\<open>FlushAllPgsImp\<close>, and the loop over \<open>0 .. pool_size - 1\<close>.\<close>

definition flush_frame :: "frame_id_t \<Rightarrow> BufferPoolManagerInstance \<Rightarrow> BufferPoolManagerInstance" where
  "flush_frame i s =
     (if is_dirty (pages s ! i)
      then s\<lparr>disk_manager := WritePage (disk_manager s) (page_id (pages s ! i)) (data (pages s ! i)),
             pages := (pages s)[i := (pages s ! i)\<lparr>is_dirty := False\<rparr>]\<rparr>
      else s)"

definition FlushAllPgsImp :: "BufferPoolManagerInstance \<Rightarrow> BufferPoolManagerInstance" where
  "FlushAllPgsImp s = fold flush_frame [0..<pool_size s] s"

text \<open>
  \<^verbatim>\<open>NewPgImp\<close>. The second argument is the value the caller's \<^verbatim>\<open>*page_id\<close> holds before the
  call; the result is the returned frame (\<open>None\<close> is \<^verbatim>\<open>nullptr\<close>), the value of
  \<^verbatim>\<open>*page_id\<close> after the call, and the new state. The outer \<open>None\<close> is the abort of a failed
  assertion in \<^verbatim>\<open>AllocatePage\<close>.
\<close>

definition NewPgImp ::
  "BufferPoolManagerInstance \<Rightarrow> page_id_t \<Rightarrow>
   (frame_id_t option \<times> page_id_t \<times> BufferPoolManagerInstance) option" where
  "NewPgImp s out =
     (if free_list s = [] \<and> Size (replacer s) = 0 then Some (None, out, s)
      else
        case AllocatePage s of
          None \<Rightarrow> None
        | Some (pid, s1) \<Rightarrow>
            (case
               (if free_list s1 \<noteq> []
                then Some (last (free_list s1), s1\<lparr>free_list := butlast (free_list s1)\<rparr>)
                else
                  (case Victim (replacer s1) of
                     (None, r) \<Rightarrow> None
                   | (Some f, r) \<Rightarrow>
                       let s2 = s1\<lparr>replacer := r\<rparr>;
                           s3 = (if is_dirty (pages s2 ! f)
                                 then s2\<lparr>disk_manager :=
                                            WritePage (disk_manager s2) (page_id (pages s2 ! f))
                                              (data (pages s2 ! f)),
                                          pages := (pages s2)[f := (pages s2 ! f)\<lparr>is_dirty := False\<rparr>]\<rparr>
                                 else s2)
                       in Some (f, s3\<lparr>page_table := (page_table s3)(page_id (pages s3 ! f) := None)\<rparr>)))
             of
               None \<Rightarrow> Some (None, pid, s1)
             | Some (f, s4) \<Rightarrow>
                 Some (Some f, pid,
                   s4\<lparr>pages := (pages s4)[f := ResetMemory
                                   ((pages s4 ! f)\<lparr>is_dirty := False, pin_count := 1, page_id := pid\<rparr>)],
                      page_table := (page_table s4)(pid \<mapsto> f),
                      replacer := Pin (replacer s4) f\<rparr>)))"

definition FetchPgImp ::
  "BufferPoolManagerInstance \<Rightarrow> page_id_t \<Rightarrow> frame_id_t option \<times> BufferPoolManagerInstance" where
  "FetchPgImp s p =
     (case page_table s p of
        Some f \<Rightarrow>
          (Some f, s\<lparr>replacer := Pin (replacer s) f,
                     pages := (pages s)[f := (pages s ! f)\<lparr>pin_count := pin_count (pages s ! f) + 1\<rparr>]\<rparr>)
      | None \<Rightarrow>
          (case
             (if free_list s \<noteq> []
              then Some (last (free_list s), s\<lparr>free_list := butlast (free_list s)\<rparr>)
              else
                (case Victim (replacer s) of
                   (None, r) \<Rightarrow> None
                 | (Some f, r) \<Rightarrow> Some (f, s\<lparr>replacer := r\<rparr>)))
           of
             None \<Rightarrow> (None, s)
           | Some (f, s1) \<Rightarrow>
               let s2 = (if is_dirty (pages s1 ! f)
                         then s1\<lparr>disk_manager :=
                                   WritePage (disk_manager s1) (page_id (pages s1 ! f)) (data (pages s1 ! f))\<rparr>
                         else s1);
                   s3 = s2\<lparr>page_table := ((page_table s2)(page_id (pages s2 ! f) := None))(p \<mapsto> f),
                           pages := (pages s2)[f := (pages s2 ! f)\<lparr>page_id := p, is_dirty := False, pin_count := 1\<rparr>]\<rparr>;
                   (buf, d) = ReadPage (disk_manager s3) p
               in (Some f, s3\<lparr>disk_manager := d,
                              pages := (pages s3)[f := (pages s3 ! f)\<lparr>data := buf\<rparr>]\<rparr>)))"

text \<open>
  Modelled from the spec: \<^verbatim>\<open>DeallocatePage\<close> is defined in the header, which is not among
  the sources; the spec calls it bookkeeping only, and it leaves the state of the model as
  it is.
\<close>

definition DeletePgImp ::
  "BufferPoolManagerInstance \<Rightarrow> page_id_t \<Rightarrow> bool \<times> BufferPoolManagerInstance" where
  "DeletePgImp s p =
     (case page_table s p of
        None \<Rightarrow> (True, s)
      | Some f \<Rightarrow>
          if pin_count (pages s ! f) \<noteq> 0 then (False, s)
          else (True, s\<lparr>pages := (pages s)[f := (pages s ! f)\<lparr>page_id := INVALID_PAGE_ID, is_dirty := False\<rparr>],
                        free_list := f # free_list s,
                        page_table := (page_table s)(p := None)\<rparr>))"

definition UnpinPgImp ::
  "BufferPoolManagerInstance \<Rightarrow> page_id_t \<Rightarrow> bool \<Rightarrow> bool \<times> BufferPoolManagerInstance" where
  "UnpinPgImp s p dirty =
     (case page_table s p of
        None \<Rightarrow> (False, s)
      | Some f \<Rightarrow>
          if pin_count (pages s ! f) \<le> 0 then (False, s)
          else
            let s1 = s\<lparr>pages := (pages s)[f := (pages s ! f)\<lparr>is_dirty := is_dirty (pages s ! f) \<or> dirty,
                                                              pin_count := pin_count (pages s ! f) - 1\<rparr>]\<rparr>
            in if pin_count (pages s1 ! f) = 0
               then (True, s1\<lparr>replacer := Unpin (replacer s1) f\<rparr>)
               else (True, s1))"

section \<open>Runs of the manager\<close>

text \<open>
  A caller's sequence of calls. \<open>step\<close> keeps the new state of a call and drops its return
  value; \<open>None\<close> is the abort of a failed assertion. A state is reachable when the
  constructor and then some calls produce it.
\<close>

datatype op =
    NewPage
  | FetchPage page_id_t
  | UnpinPage page_id_t bool
  | FlushPage page_id_t
  | FlushAllPages
  | DeletePage page_id_t

fun step :: "BufferPoolManagerInstance \<Rightarrow> op \<Rightarrow> BufferPoolManagerInstance option" where
  "step s NewPage = map_option (\<lambda>(r, out, s'). s') (NewPgImp s 0)"
| "step s (FetchPage p) = Some (snd (FetchPgImp s p))"
| "step s (UnpinPage p dirty) = Some (snd (UnpinPgImp s p dirty))"
| "step s (FlushPage p) = Some (snd (FlushPgImp s p))"
| "step s FlushAllPages = Some (FlushAllPgsImp s)"
| "step s (DeletePage p) = Some (snd (DeletePgImp s p))"

fun run :: "BufferPoolManagerInstance \<Rightarrow> op list \<Rightarrow> BufferPoolManagerInstance option" where
  "run s [] = Some s"
| "run s (x # xs) = (case step s x of None \<Rightarrow> None | Some s' \<Rightarrow> run s' xs)"

inductive reachable :: "BufferPoolManagerInstance \<Rightarrow> bool" where
  reachable_init: "new_BufferPoolManagerInstance sz n N i d = Some s \<Longrightarrow> reachable s"
| reachable_step: "reachable s \<Longrightarrow> step s x = Some s' \<Longrightarrow> reachable s'"

text \<open>
  The identifiers handed out along a run: the value a successful \<^verbatim>\<open>NewPgImp\<close> writes to
  \<^verbatim>\<open>*page_id\<close>, in order.
\<close>

fun allocated :: "BufferPoolManagerInstance \<Rightarrow> op \<Rightarrow> page_id_t list" where
  "allocated s NewPage =
     (case NewPgImp s 0 of
        None \<Rightarrow> []
      | Some (None, out, s') \<Rightarrow> []
      | Some (Some f, out, s') \<Rightarrow> [out])"
| "allocated s x = []"

fun new_page_ids :: "BufferPoolManagerInstance \<Rightarrow> op list \<Rightarrow> page_id_t list" where
  "new_page_ids s [] = []"
| "new_page_ids s (x # xs) =
     allocated s x @ (case step s x of None \<Rightarrow> [] | Some s' \<Rightarrow> new_page_ids s' xs)"

text \<open>
  A caller that fetches only identifiers the allocator has already handed out: every
  \<^verbatim>\<open>FetchPage\<close> argument is non-negative and below \<^verbatim>\<open>next_page_id_\<close>.
\<close>

fun op_ok :: "BufferPoolManagerInstance \<Rightarrow> op \<Rightarrow> bool" where
  "op_ok s (FetchPage p) = (0 \<le> p \<and> p < next_page_id s)"
| "op_ok s x = True"

fun fetches_allocated :: "BufferPoolManagerInstance \<Rightarrow> op list \<Rightarrow> bool" where
  "fetches_allocated s [] = True"
| "fetches_allocated s (x # xs) =
     (op_ok s x \<and> (case step s x of None \<Rightarrow> True | Some s' \<Rightarrow> fetches_allocated s' xs))"

text \<open>Unpinning a list of frames in order, and \<open>k\<close> successive calls of \<^verbatim>\<open>Victim\<close>.\<close>

fun unpin_all :: "LRUReplacer \<Rightarrow> frame_id_t list \<Rightarrow> LRUReplacer" where
  "unpin_all r [] = r"
| "unpin_all r (f # fs) = unpin_all (Unpin r f) fs"

fun victims :: "LRUReplacer \<Rightarrow> nat \<Rightarrow> frame_id_t option list" where
  "victims r 0 = []"
| "victims r (Suc k) = (case Victim r of (v, r') \<Rightarrow> v # victims r' k)"

section \<open>Invariants and derived forms\<close>

text \<open>
  The replacer's list and its index agree: a frame is in \<^verbatim>\<open>pin_lists_\<close> exactly when the
  index holds the iterator of its node; the list has no duplicates and holds frames of the
  pool only.
\<close>

definition replacer_inv :: "nat \<Rightarrow> LRUReplacer \<Rightarrow> bool" where
  "replacer_inv n r =
     (num_pages r = n \<and> distinct (pin_lists r) \<and> (\<forall>f \<in> set (pin_lists r). f < n) \<and>
      (\<forall>f. (pin_map_table r f = Some It_node) = (f \<in> set (pin_lists r))))"

text \<open>
  What every reachable state of the manager satisfies: the frame array has \<open>pool_size\<close>
  entries, the allocator's counter stays in the instance's residue class, the free list has
  no duplicates, a page-table entry points to a frame outside the free list whose
  \<^verbatim>\<open>page_id_\<close> is the entry's key, and pin counts are not negative.
\<close>

definition bpm_inv :: "BufferPoolManagerInstance \<Rightarrow> bool" where
  "bpm_inv s =
     (length (pages s) = pool_size s \<and>
      0 < num_instances s \<and> instance_index s < num_instances s \<and>
      int (instance_index s) \<le> next_page_id s \<and>
      next_page_id s mod int (num_instances s) = int (instance_index s) \<and>
      replacer_inv (pool_size s) (replacer s) \<and>
      distinct (free_list s) \<and> (\<forall>f \<in> set (free_list s). f < pool_size s) \<and>
      (\<forall>p f. page_table s p = Some f \<longrightarrow>
         f < pool_size s \<and> f \<notin> set (free_list s) \<and> page_id (pages s ! f) = p) \<and>
      (\<forall>f < pool_size s. 0 \<le> pin_count (pages s ! f)))"

text \<open>The fields the constructor fixes are the same in both states.\<close>

definition same_config :: "BufferPoolManagerInstance \<Rightarrow> BufferPoolManagerInstance \<Rightarrow> bool" where
  "same_config s s' =
     (pool_size s' = pool_size s \<and> num_instances s' = num_instances s \<and>
      instance_index s' = instance_index s)"

text \<open>Abbreviations for the frame and disk contents the operations produce.\<close>

definition fresh_page :: "Page \<Rightarrow> page_id_t \<Rightarrow> Page" where
  "fresh_page pg pid = pg\<lparr>is_dirty := False, pin_count := 1, page_id := pid, data := replicate (length (data pg)) 0\<rparr>"

definition loaded_page :: "Page \<Rightarrow> page_id_t \<Rightarrow> page_data \<Rightarrow> Page" where
  "loaded_page pg p buf = pg\<lparr>page_id := p, is_dirty := False, pin_count := 1, data := buf\<rparr>"

definition evict_disk :: "BufferPoolManagerInstance \<Rightarrow> frame_id_t \<Rightarrow> DiskManager" where
  "evict_disk s f =
     (if is_dirty (pages s ! f)
      then WritePage (disk_manager s) (page_id (pages s ! f)) (data (pages s ! f))
      else disk_manager s)"

definition clear_dirty :: "Page \<Rightarrow> Page" where
  "clear_dirty pg = pg\<lparr>is_dirty := False\<rparr>"

definition write_of :: "Page \<Rightarrow> disk_call" where
  "write_of pg = WriteCall (page_id pg) (data pg)"

text \<open>
  With a caller that fetches allocated identifiers only, every frame outside the free list
  is the target of the page-table entry of its own \<^verbatim>\<open>page_id_\<close>, the keys of the page
  table are identifiers already handed out, and a free frame holds the sentinel.
\<close>

definition no_leak :: "BufferPoolManagerInstance \<Rightarrow> bool" where
  "no_leak s =
     ((\<forall>f < pool_size s. f \<notin> set (free_list s) \<longrightarrow>
          page_table s (page_id (pages s ! f)) = Some f) \<and>
      (\<forall>p f. page_table s p = Some f \<longrightarrow> 0 \<le> p \<and> p < next_page_id s) \<and>
      (\<forall>f \<in> set (free_list s). page_id (pages s ! f) = INVALID_PAGE_ID))"

section \<open>Example pools\<close>

text \<open>
  A disk whose page \<open>p\<close> holds the two bytes \<open>[p, p]\<close>, and the pool of \<open>n\<close> frames (one
  instance, buffers of two bytes) after a list of operations.
\<close>

definition disk0 :: DiskManager where
  "disk0 = \<lparr>stored = (\<lambda>p. [nat p, nat p]), calls = []\<rparr>"

definition pool_after :: "nat \<Rightarrow> op list \<Rightarrow> BufferPoolManagerInstance option" where
  "pool_after n xs =
     (case new_BufferPoolManagerInstance 2 n 1 0 disk0 of None \<Rightarrow> None | Some s \<Rightarrow> run s xs)"

section \<open>Auxiliary facts about lists\<close>

lemma set_butlast_distinct: "distinct xs \<Longrightarrow> xs \<noteq> [] \<Longrightarrow> set (butlast xs) = set xs - {last xs}"
proof (induction xs rule: rev_induct)
  case Nil
  then show ?case by simp
next
  case (snoc x xs)
  then show ?case by auto
qed

lemma length_lt_bound:
  assumes "distinct xs" "\<forall>x \<in> set xs. x < n" "f < n" "f \<notin> set xs"
  shows "length xs < (n::nat)"
proof -
  have "set (f # xs) \<subseteq> {..<n}" using assms by auto
  then have "card (set (f # xs)) \<le> card {..<n}" by (intro card_mono) auto
  moreover have "card (set (f # xs)) = Suc (length xs)"
    using assms distinct_card [of "f # xs"] by simp
  ultimately show ?thesis by simp
qed

lemma nth_update_cases: "xs[i := x] ! j = (if i = j \<and> i < length xs then x else xs ! j)"
  by (cases "i < length xs") (auto simp: nth_list_update list_update_beyond)

section \<open>The replacer keeps its invariant\<close>

lemma Victim_empty: "pin_lists r = [] \<Longrightarrow> Victim r = (None, r)"
  by (simp add: Victim_def)

lemma Victim_nonempty:
  "pin_lists r \<noteq> [] \<Longrightarrow>
   Victim r = (Some (last (pin_lists r)),
               r\<lparr>pin_map_table := (pin_map_table r)(last (pin_lists r) := None),
                 pin_lists := butlast (pin_lists r)\<rparr>)"
  by (simp add: Victim_def)

lemma replacer_inv_new: "replacer_inv n (new_LRUReplacer n)"
  by (simp add: replacer_inv_def new_LRUReplacer_def)

lemma replacer_inv_Victim:
  assumes "replacer_inv n r"
  shows "replacer_inv n (snd (Victim r))"
proof (cases "pin_lists r = []")
  case True
  with assms show ?thesis by (simp add: Victim_empty)
next
  case False
  with assms show ?thesis
    by (auto simp: Victim_nonempty replacer_inv_def distinct_butlast set_butlast_distinct
        dest: in_set_butlastD)
qed

lemma replacer_inv_Pin: "replacer_inv n r \<Longrightarrow> replacer_inv n (Pin r f)"
  by (auto simp: replacer_inv_def Pin_def split: option.splits list_iterator.splits)

lemma replacer_inv_Unpin:
  assumes "replacer_inv n r" "f < n"
  shows "replacer_inv n (Unpin r f)"
proof -
  from assms(1) have m: "\<And>g. (pin_map_table r g = Some It_node) = (g \<in> set (pin_lists r))"
    by (simp add: replacer_inv_def)
  show ?thesis
  proof (cases "pin_map_table r f = Some It_node")
    case True
    with assms show ?thesis by (simp add: Unpin_def)
  next
    case False
    then have "f \<notin> set (pin_lists r)" using m by simp
    with assms False show ?thesis
      by (auto simp: replacer_inv_def Unpin_def)
  qed
qed

lemma Unpin_member:
  assumes "replacer_inv n r" "f < n"
  shows "f \<in> set (pin_lists (Unpin r f))"
proof (cases "pin_map_table r f = Some It_node")
  case True
  with assms show ?thesis by (simp add: Unpin_def replacer_inv_def)
next
  case False
  then have nin: "f \<notin> set (pin_lists r)" using assms by (simp add: replacer_inv_def)
  have "length (pin_lists r) < num_pages r"
    using length_lt_bound [of "pin_lists r" n f] assms nin by (simp add: replacer_inv_def)
  moreover have "pin_map_table r f = None \<or> pin_map_table r f = Some It_end"
    using False by (cases "pin_map_table r f") (auto intro: list_iterator.exhaust)
  ultimately show ?thesis by (auto simp: Unpin_def)
qed

section \<open>The branches of the manager's operations\<close>

lemma AllocatePage_ok:
  "next_page_id s mod int (num_instances s) = int (instance_index s) \<Longrightarrow>
   AllocatePage s = Some (next_page_id s, s\<lparr>next_page_id := next_page_id s + int (num_instances s)\<rparr>)"
  by (simp add: AllocatePage_def ValidatePageId_def Let_def)

lemma NewPgImp_full:
  "free_list s = [] \<Longrightarrow> pin_lists (replacer s) = [] \<Longrightarrow> NewPgImp s out = Some (None, out, s)"
  by (simp add: NewPgImp_def Size_def)

lemma NewPgImp_free:
  assumes "next_page_id s mod int (num_instances s) = int (instance_index s)"
    and "free_list s \<noteq> []"
  shows "NewPgImp s out =
     Some (Some (last (free_list s)), next_page_id s,
       s\<lparr>next_page_id := next_page_id s + int (num_instances s),
         free_list := butlast (free_list s),
         pages := (pages s)[last (free_list s) := fresh_page (pages s ! last (free_list s)) (next_page_id s)],
         page_table := (page_table s)(next_page_id s \<mapsto> last (free_list s)),
         replacer := Pin (replacer s) (last (free_list s))\<rparr>)"
  using assms
  by (simp add: NewPgImp_def AllocatePage_ok ResetMemory_def fresh_page_def)

lemma NewPgImp_victim:
  assumes "next_page_id s mod int (num_instances s) = int (instance_index s)"
    and "free_list s = []" and "pin_lists (replacer s) \<noteq> []"
    and "f = last (pin_lists (replacer s))" and "f < length (pages s)"
  shows "NewPgImp s out =
     Some (Some f, next_page_id s,
       s\<lparr>next_page_id := next_page_id s + int (num_instances s),
         replacer := Pin (snd (Victim (replacer s))) f,
         disk_manager := evict_disk s f,
         page_table := ((page_table s)(page_id (pages s ! f) := None))(next_page_id s \<mapsto> f),
         pages := (pages s)[f := fresh_page (pages s ! f) (next_page_id s)]\<rparr>)"
  using assms
  by (simp add: NewPgImp_def AllocatePage_ok Size_def Victim_nonempty ResetMemory_def
      fresh_page_def evict_disk_def Let_def)

lemma FetchPgImp_hit:
  "page_table s p = Some f \<Longrightarrow>
   FetchPgImp s p =
     (Some f, s\<lparr>replacer := Pin (replacer s) f,
                pages := (pages s)[f := (pages s ! f)\<lparr>pin_count := pin_count (pages s ! f) + 1\<rparr>]\<rparr>)"
  by (simp add: FetchPgImp_def)

lemma FetchPgImp_full:
  "page_table s p = None \<Longrightarrow> free_list s = [] \<Longrightarrow> pin_lists (replacer s) = [] \<Longrightarrow>
   FetchPgImp s p = (None, s)"
  by (simp add: FetchPgImp_def Victim_empty)

lemma FetchPgImp_free:
  assumes "page_table s p = None" and "free_list s \<noteq> []"
    and "f = last (free_list s)" and "f < length (pages s)"
  shows "FetchPgImp s p =
     (Some f,
      s\<lparr>free_list := butlast (free_list s),
        disk_manager := (evict_disk s f)\<lparr>calls := calls (evict_disk s f) @ [ReadCall p]\<rparr>,
        page_table := ((page_table s)(page_id (pages s ! f) := None))(p \<mapsto> f),
        pages := (pages s)[f := loaded_page (pages s ! f) p (stored (evict_disk s f) p)]\<rparr>)"
  using assms
  by (simp add: FetchPgImp_def evict_disk_def loaded_page_def ReadPage_def Let_def)

lemma FetchPgImp_victim:
  assumes "page_table s p = None" and "free_list s = []" and "pin_lists (replacer s) \<noteq> []"
    and "f = last (pin_lists (replacer s))" and "f < length (pages s)"
  shows "FetchPgImp s p =
     (Some f,
      s\<lparr>replacer := snd (Victim (replacer s)),
        disk_manager := (evict_disk s f)\<lparr>calls := calls (evict_disk s f) @ [ReadCall p]\<rparr>,
        page_table := ((page_table s)(page_id (pages s ! f) := None))(p \<mapsto> f),
        pages := (pages s)[f := loaded_page (pages s ! f) p (stored (evict_disk s f) p)]\<rparr>)"
  using assms
  by (simp add: FetchPgImp_def evict_disk_def loaded_page_def ReadPage_def Let_def Victim_nonempty)

lemma DeletePgImp_absent: "page_table s p = None \<Longrightarrow> DeletePgImp s p = (True, s)"
  by (simp add: DeletePgImp_def)

lemma DeletePgImp_pinned:
  "page_table s p = Some f \<Longrightarrow> pin_count (pages s ! f) \<noteq> 0 \<Longrightarrow> DeletePgImp s p = (False, s)"
  by (simp add: DeletePgImp_def)

lemma DeletePgImp_unpinned:
  "page_table s p = Some f \<Longrightarrow> pin_count (pages s ! f) = 0 \<Longrightarrow>
   DeletePgImp s p =
     (True, s\<lparr>pages := (pages s)[f := (pages s ! f)\<lparr>page_id := INVALID_PAGE_ID, is_dirty := False\<rparr>],
               free_list := f # free_list s,
               page_table := (page_table s)(p := None)\<rparr>)"
  by (simp add: DeletePgImp_def)

lemma UnpinPgImp_absent: "page_table s p = None \<Longrightarrow> UnpinPgImp s p d = (False, s)"
  by (simp add: UnpinPgImp_def)

lemma UnpinPgImp_zero:
  "page_table s p = Some f \<Longrightarrow> pin_count (pages s ! f) \<le> 0 \<Longrightarrow> UnpinPgImp s p d = (False, s)"
  by (simp add: UnpinPgImp_def)

lemma UnpinPgImp_pinned:
  assumes "page_table s p = Some f" and "0 < pin_count (pages s ! f)" and "f < length (pages s)"
  shows "UnpinPgImp s p d =
     (True, s\<lparr>pages := (pages s)[f := (pages s ! f)\<lparr>is_dirty := is_dirty (pages s ! f) \<or> d,
                                                   pin_count := pin_count (pages s ! f) - 1\<rparr>],
               replacer := (if pin_count (pages s ! f) = 1 then Unpin (replacer s) f else replacer s)\<rparr>)"
  using assms by (simp add: UnpinPgImp_def Let_def)

section \<open>Every reachable state satisfies the invariant\<close>

lemma bpm_invI:
  assumes "length (pages s) = pool_size s"
    and "0 < num_instances s" and "instance_index s < num_instances s"
    and "int (instance_index s) \<le> next_page_id s"
    and "next_page_id s mod int (num_instances s) = int (instance_index s)"
    and "replacer_inv (pool_size s) (replacer s)"
    and "distinct (free_list s)" and "\<And>f. f \<in> set (free_list s) \<Longrightarrow> f < pool_size s"
    and "\<And>p f. page_table s p = Some f \<Longrightarrow>
           f < pool_size s \<and> f \<notin> set (free_list s) \<and> page_id (pages s ! f) = p"
    and "\<And>f. f < pool_size s \<Longrightarrow> 0 \<le> pin_count (pages s ! f)"
  shows "bpm_inv s"
  using assms unfolding bpm_inv_def by blast

lemma bpm_inv_len: "bpm_inv s \<Longrightarrow> length (pages s) = pool_size s"
  by (simp add: bpm_inv_def)

lemma bpm_inv_inst: "bpm_inv s \<Longrightarrow> 0 < num_instances s \<and> instance_index s < num_instances s"
  by (simp add: bpm_inv_def)

lemma bpm_inv_alloc:
  "bpm_inv s \<Longrightarrow> int (instance_index s) \<le> next_page_id s \<and>
     next_page_id s mod int (num_instances s) = int (instance_index s)"
  by (simp add: bpm_inv_def)

lemma bpm_inv_repl: "bpm_inv s \<Longrightarrow> replacer_inv (pool_size s) (replacer s)"
  by (simp add: bpm_inv_def)

lemma bpm_inv_free_distinct: "bpm_inv s \<Longrightarrow> distinct (free_list s)"
  by (simp add: bpm_inv_def)

lemma bpm_inv_free_bound: "bpm_inv s \<Longrightarrow> f \<in> set (free_list s) \<Longrightarrow> f < pool_size s"
  by (simp add: bpm_inv_def)

lemma bpm_inv_table:
  "bpm_inv s \<Longrightarrow> page_table s p = Some f \<Longrightarrow>
     f < pool_size s \<and> f \<notin> set (free_list s) \<and> page_id (pages s ! f) = p"
  by (simp add: bpm_inv_def)

lemma bpm_inv_pins: "bpm_inv s \<Longrightarrow> f < pool_size s \<Longrightarrow> 0 \<le> pin_count (pages s ! f)"
  by (simp add: bpm_inv_def)

lemma bpm_inv_new:
  assumes "new_BufferPoolManagerInstance sz n N i d = Some s"
  shows "bpm_inv s"
  using assms
  by (auto simp: new_BufferPoolManagerInstance_def bpm_inv_def replacer_inv_new new_Page_def
      split: if_splits)

lemma bpm_inv_install:
  assumes inv: "bpm_inv s" and f: "f < pool_size s"
    and cfg: "same_config s s'"
    and pgs: "pages s' = (pages s)[f := pg]"
    and fl: "distinct (free_list s')" "\<And>g. g \<in> set (free_list s') \<Longrightarrow> g \<in> set (free_list s) \<and> g \<noteq> f"
    and tab: "\<And>p g. page_table s' p = Some g \<Longrightarrow>
                (p = q \<and> g = f) \<or> (page_table s p = Some g \<and> g \<noteq> f)"
    and pg: "page_id pg = q" "0 \<le> pin_count pg"
    and r: "replacer_inv (pool_size s) (replacer s')"
    and nx: "next_page_id s \<le> next_page_id s'"
            "next_page_id s' mod int (num_instances s) = int (instance_index s)"
  shows "bpm_inv s'"
proof (rule bpm_invI)
  note c = cfg [unfolded same_config_def]
  show "length (pages s') = pool_size s'" using bpm_inv_len [OF inv] c pgs by simp
  show "0 < num_instances s'" "instance_index s' < num_instances s'"
    using bpm_inv_inst [OF inv] c by simp_all
  show "int (instance_index s') \<le> next_page_id s'" using bpm_inv_alloc [OF inv] nx c by simp
  show "next_page_id s' mod int (num_instances s') = int (instance_index s')"
    using nx c by simp
  show "replacer_inv (pool_size s') (replacer s')" using r c by simp
  show "distinct (free_list s')" using fl by simp
  show "g < pool_size s'" if "g \<in> set (free_list s')" for g
    using that fl(2) [of g] bpm_inv_free_bound [OF inv, of g] c by simp
  show "g < pool_size s' \<and> g \<notin> set (free_list s') \<and> page_id (pages s' ! g) = p"
    if "page_table s' p = Some g" for p g
  proof -
    from tab [OF that] show ?thesis
    proof
      assume "p = q \<and> g = f"
      with f pg fl(2) [of f] bpm_inv_len [OF inv] c pgs show ?thesis by auto
    next
      assume a: "page_table s p = Some g \<and> g \<noteq> f"
      with bpm_inv_table [OF inv, of p g] fl(2) [of g] c pgs show ?thesis by auto
    qed
  qed
  show "0 \<le> pin_count (pages s' ! g)" if "g < pool_size s'" for g
    using that bpm_inv_pins [OF inv, of g] pg c pgs by (simp add: nth_update_cases)
qed

lemma bpm_inv_touch:
  assumes inv: "bpm_inv s"
    and cfg: "same_config s s'"
    and pgs: "pages s' = (pages s)[f := pg]"
    and same: "free_list s' = free_list s" "page_table s' = page_table s"
              "next_page_id s' = next_page_id s"
    and pg: "page_id pg = page_id (pages s ! f)" "0 \<le> pin_count pg"
    and r: "replacer_inv (pool_size s) (replacer s')"
  shows "bpm_inv s'"
proof (rule bpm_invI)
  note c = cfg [unfolded same_config_def]
  show "length (pages s') = pool_size s'" using bpm_inv_len [OF inv] c pgs by simp
  show "0 < num_instances s'" "instance_index s' < num_instances s'"
    using bpm_inv_inst [OF inv] c by simp_all
  show "int (instance_index s') \<le> next_page_id s'" using bpm_inv_alloc [OF inv] c same by simp
  show "next_page_id s' mod int (num_instances s') = int (instance_index s')"
    using bpm_inv_alloc [OF inv] c same by simp
  show "replacer_inv (pool_size s') (replacer s')" using r c by simp
  show "distinct (free_list s')" using bpm_inv_free_distinct [OF inv] same by simp
  show "g < pool_size s'" if "g \<in> set (free_list s')" for g
    using that bpm_inv_free_bound [OF inv, of g] c same by simp
  show "g < pool_size s' \<and> g \<notin> set (free_list s') \<and> page_id (pages s' ! g) = p"
    if "page_table s' p = Some g" for p g
    using that bpm_inv_table [OF inv, of p g] pg c same pgs by (simp add: nth_update_cases)
  show "0 \<le> pin_count (pages s' ! g)" if "g < pool_size s'" for g
    using that bpm_inv_pins [OF inv, of g] pg c pgs by (simp add: nth_update_cases)
qed

lemma bpm_inv_delete:
  assumes inv: "bpm_inv s" and t: "page_table s p = Some f"
  shows "bpm_inv (s\<lparr>pages := (pages s)[f := (pages s ! f)\<lparr>page_id := INVALID_PAGE_ID, is_dirty := False\<rparr>],
               free_list := f # free_list s,
               page_table := (page_table s)(p := None)\<rparr>)"
    (is "bpm_inv ?s'")
proof (rule bpm_invI)
  note tf = bpm_inv_table [OF inv t]
  show "length (pages ?s') = pool_size ?s'" using bpm_inv_len [OF inv] by simp
  show "0 < num_instances ?s'" "instance_index ?s' < num_instances ?s'"
    using bpm_inv_inst [OF inv] by simp_all
  show "int (instance_index ?s') \<le> next_page_id ?s'" using bpm_inv_alloc [OF inv] by simp
  show "next_page_id ?s' mod int (num_instances ?s') = int (instance_index ?s')"
    using bpm_inv_alloc [OF inv] by simp
  show "replacer_inv (pool_size ?s') (replacer ?s')" using bpm_inv_repl [OF inv] by simp
  show "distinct (free_list ?s')" using bpm_inv_free_distinct [OF inv] tf by simp
  show "g < pool_size ?s'" if "g \<in> set (free_list ?s')" for g
    using that bpm_inv_free_bound [OF inv, of g] tf by auto
  show "g < pool_size ?s' \<and> g \<notin> set (free_list ?s') \<and> page_id (pages ?s' ! g) = q"
    if "page_table ?s' q = Some g" for q g
  proof -
    from that have q: "q \<noteq> p" "page_table s q = Some g" by (auto split: if_splits)
    from bpm_inv_table [OF inv q(2)] tf q(1) have "g \<noteq> f" by auto
    with bpm_inv_table [OF inv q(2)] show ?thesis by (simp add: nth_update_cases)
  qed
  show "0 \<le> pin_count (pages ?s' ! g)" if "g < pool_size ?s'" for g
    using that bpm_inv_pins [OF inv, of g] by (simp add: nth_update_cases)
qed

lemma last_free_facts:
  assumes inv: "bpm_inv s" and ne: "free_list s \<noteq> []"
  shows "last (free_list s) < pool_size s"
    and "distinct (butlast (free_list s))"
    and "g \<in> set (butlast (free_list s)) \<Longrightarrow> g \<in> set (free_list s) \<and> g \<noteq> last (free_list s)"
    and "page_table s p = Some g \<Longrightarrow> g \<noteq> last (free_list s)"
proof -
  have fin: "last (free_list s) \<in> set (free_list s)" using ne by simp
  show "last (free_list s) < pool_size s" using bpm_inv_free_bound [OF inv fin] .
  show "distinct (butlast (free_list s))"
    using bpm_inv_free_distinct [OF inv] by (simp add: distinct_butlast)
  show "g \<in> set (butlast (free_list s)) \<Longrightarrow> g \<in> set (free_list s) \<and> g \<noteq> last (free_list s)"
    using bpm_inv_free_distinct [OF inv] ne by (simp add: set_butlast_distinct)
  show "page_table s p = Some g \<Longrightarrow> g \<noteq> last (free_list s)"
    using bpm_inv_table [OF inv, of p g] fin by auto
qed

lemma last_victim_facts:
  assumes inv: "bpm_inv s" and ne: "pin_lists (replacer s) \<noteq> []"
  shows "last (pin_lists (replacer s)) < pool_size s"
    and "page_table s p = Some g \<Longrightarrow> p \<noteq> page_id (pages s ! last (pin_lists (replacer s))) \<Longrightarrow>
         g \<noteq> last (pin_lists (replacer s))"
proof -
  have "last (pin_lists (replacer s)) \<in> set (pin_lists (replacer s))" using ne by simp
  then show "last (pin_lists (replacer s)) < pool_size s"
    using bpm_inv_repl [OF inv] by (simp add: replacer_inv_def)
  show "page_table s p = Some g \<Longrightarrow> p \<noteq> page_id (pages s ! last (pin_lists (replacer s))) \<Longrightarrow>
         g \<noteq> last (pin_lists (replacer s))"
    using bpm_inv_table [OF inv, of p g] by auto
qed

lemma NewPgImp_total:
  assumes inv: "bpm_inv s"
  shows "NewPgImp s out \<noteq> None"
proof -
  note al = bpm_inv_alloc [OF inv]
  consider (full) "free_list s = []" "pin_lists (replacer s) = []"
    | (free) "free_list s \<noteq> []"
    | (victim) "free_list s = []" "pin_lists (replacer s) \<noteq> []"
    by blast
  then show ?thesis
  proof cases
    case full
    then show ?thesis by (simp add: NewPgImp_full)
  next
    case free
    with al show ?thesis by (simp add: NewPgImp_free)
  next
    case victim
    have "last (pin_lists (replacer s)) < length (pages s)"
      using last_victim_facts(1) [OF inv victim(2)] bpm_inv_len [OF inv] by simp
    with victim al show ?thesis
      by (simp add: NewPgImp_victim [where f = "last (pin_lists (replacer s))"])
  qed
qed

lemma bpm_inv_NewPgImp:
  assumes inv: "bpm_inv s" and new: "NewPgImp s out = Some (res, out', s')"
  shows "bpm_inv s'"
proof -
  note al = bpm_inv_alloc [OF inv]
  consider (full) "free_list s = []" "pin_lists (replacer s) = []"
    | (free) "free_list s \<noteq> []"
    | (victim) "free_list s = []" "pin_lists (replacer s) \<noteq> []"
    by blast
  then show ?thesis
  proof cases
    case full
    with new inv show ?thesis by (simp add: NewPgImp_full)
  next
    case free
    let ?f = "last (free_list s)"
    note ff = last_free_facts [OF inv free]
    have s': "s' = s\<lparr>next_page_id := next_page_id s + int (num_instances s),
            free_list := butlast (free_list s),
            pages := (pages s)[?f := fresh_page (pages s ! ?f) (next_page_id s)],
            page_table := (page_table s)(next_page_id s \<mapsto> ?f),
            replacer := Pin (replacer s) ?f\<rparr>"
      using new free al by (auto simp: NewPgImp_free)
    show ?thesis
    proof (rule bpm_inv_install [OF inv ff(1), where q = "next_page_id s"])
      show "same_config s s'" by (simp add: s' same_config_def)
      show "pages s' = (pages s)[?f := fresh_page (pages s ! ?f) (next_page_id s)]" by (simp add: s')
      show "distinct (free_list s')" using ff(2) by (simp add: s')
      show "\<And>g. g \<in> set (free_list s') \<Longrightarrow> g \<in> set (free_list s) \<and> g \<noteq> ?f"
        using ff(3) by (simp add: s')
      show "\<And>p g. page_table s' p = Some g \<Longrightarrow>
              (p = next_page_id s \<and> g = ?f) \<or> (page_table s p = Some g \<and> g \<noteq> ?f)"
        using ff(4) by (auto simp: s' split: if_splits)
      show "page_id (fresh_page (pages s ! ?f) (next_page_id s)) = next_page_id s"
        by (simp add: fresh_page_def)
      show "0 \<le> pin_count (fresh_page (pages s ! ?f) (next_page_id s))"
        by (simp add: fresh_page_def)
      show "replacer_inv (pool_size s) (replacer s')"
        using bpm_inv_repl [OF inv] by (simp add: s' replacer_inv_Pin)
      show "next_page_id s \<le> next_page_id s'" by (simp add: s')
      show "next_page_id s' mod int (num_instances s) = int (instance_index s)"
        using al by (simp add: s')
    qed
  next
    case victim
    let ?f = "last (pin_lists (replacer s))"
    note vf = last_victim_facts [OF inv victim(2)]
    have "?f < length (pages s)" using vf(1) bpm_inv_len [OF inv] by simp
    then have s': "s' = s\<lparr>next_page_id := next_page_id s + int (num_instances s),
            pages := (pages s)[?f := fresh_page (pages s ! ?f) (next_page_id s)],
            page_table := ((page_table s)(page_id (pages s ! ?f) := None))(next_page_id s \<mapsto> ?f),
            replacer := Pin (snd (Victim (replacer s))) ?f,
            disk_manager := evict_disk s ?f\<rparr>"
      using new victim al by (auto simp: NewPgImp_victim [where f = ?f])
    show ?thesis
    proof (rule bpm_inv_install [OF inv vf(1), where q = "next_page_id s"])
      show "same_config s s'" by (simp add: s' same_config_def)
      show "pages s' = (pages s)[?f := fresh_page (pages s ! ?f) (next_page_id s)]" by (simp add: s')
      show "distinct (free_list s')" using victim(1) by (simp add: s')
      show "\<And>g. g \<in> set (free_list s') \<Longrightarrow> g \<in> set (free_list s) \<and> g \<noteq> ?f"
        using victim(1) by (simp add: s')
      show "\<And>p g. page_table s' p = Some g \<Longrightarrow>
              (p = next_page_id s \<and> g = ?f) \<or> (page_table s p = Some g \<and> g \<noteq> ?f)"
        using vf(2) by (auto simp: s' split: if_splits)
      show "page_id (fresh_page (pages s ! ?f) (next_page_id s)) = next_page_id s"
        by (simp add: fresh_page_def)
      show "0 \<le> pin_count (fresh_page (pages s ! ?f) (next_page_id s))"
        by (simp add: fresh_page_def)
      show "replacer_inv (pool_size s) (replacer s')"
        using bpm_inv_repl [OF inv] by (simp add: s' replacer_inv_Pin replacer_inv_Victim)
      show "next_page_id s \<le> next_page_id s'" by (simp add: s')
      show "next_page_id s' mod int (num_instances s) = int (instance_index s)"
        using al by (simp add: s')
    qed
  qed
qed

lemma bpm_inv_FetchPgImp:
  assumes inv: "bpm_inv s"
  shows "bpm_inv (snd (FetchPgImp s p))"
proof (cases "page_table s p")
  case (Some f)
  let ?pg = "(pages s ! f)\<lparr>pin_count := pin_count (pages s ! f) + 1\<rparr>"
  have s': "snd (FetchPgImp s p) = s\<lparr>replacer := Pin (replacer s) f, pages := (pages s)[f := ?pg]\<rparr>"
    using Some by (simp add: FetchPgImp_hit)
  show ?thesis
  proof (rule bpm_inv_touch [OF inv, where f = f and pg = ?pg])
    show "same_config s (snd (FetchPgImp s p))" by (simp add: s' same_config_def)
    show "pages (snd (FetchPgImp s p)) = (pages s)[f := ?pg]" by (simp add: s')
    show "free_list (snd (FetchPgImp s p)) = free_list s" by (simp add: s')
    show "page_table (snd (FetchPgImp s p)) = page_table s" by (simp add: s')
    show "next_page_id (snd (FetchPgImp s p)) = next_page_id s" by (simp add: s')
    show "page_id ?pg = page_id (pages s ! f)" by simp
    show "0 \<le> pin_count ?pg"
      using bpm_inv_pins [OF inv, of f] bpm_inv_table [OF inv Some] by simp
    show "replacer_inv (pool_size s) (replacer (snd (FetchPgImp s p)))"
      using bpm_inv_repl [OF inv] by (simp add: s' replacer_inv_Pin)
  qed
next
  case None
  consider (full) "free_list s = []" "pin_lists (replacer s) = []"
    | (free) "free_list s \<noteq> []"
    | (victim) "free_list s = []" "pin_lists (replacer s) \<noteq> []"
    by blast
  then show ?thesis
  proof cases
    case full
    with None inv show ?thesis by (simp add: FetchPgImp_full)
  next
    case free
    let ?f = "last (free_list s)"
    let ?pg = "loaded_page (pages s ! ?f) p (stored (evict_disk s ?f) p)"
    let ?s' = "snd (FetchPgImp s p)"
    note ff = last_free_facts [OF inv free]
    have "?f < length (pages s)" using ff(1) bpm_inv_len [OF inv] by simp
    then have s': "?s' = s\<lparr>free_list := butlast (free_list s),
        disk_manager := (evict_disk s ?f)\<lparr>calls := calls (evict_disk s ?f) @ [ReadCall p]\<rparr>,
        page_table := ((page_table s)(page_id (pages s ! ?f) := None))(p \<mapsto> ?f),
        pages := (pages s)[?f := ?pg]\<rparr>"
      using None free by (simp add: FetchPgImp_free [where f = ?f])
    show ?thesis
    proof (rule bpm_inv_install [OF inv ff(1), where q = p and pg = ?pg])
      show "same_config s ?s'" by (simp add: s' same_config_def)
      show "pages ?s' = (pages s)[?f := ?pg]" by (simp add: s')
      show "distinct (free_list ?s')" using ff(2) by (simp add: s')
      show "\<And>g. g \<in> set (free_list ?s') \<Longrightarrow> g \<in> set (free_list s) \<and> g \<noteq> ?f"
        using ff(3) by (simp add: s')
      show "\<And>q g. page_table ?s' q = Some g \<Longrightarrow>
              (q = p \<and> g = ?f) \<or> (page_table s q = Some g \<and> g \<noteq> ?f)"
        using ff(4) by (auto simp: s' split: if_splits)
      show "page_id ?pg = p" by (simp add: loaded_page_def)
      show "0 \<le> pin_count ?pg" by (simp add: loaded_page_def)
      show "replacer_inv (pool_size s) (replacer ?s')" using bpm_inv_repl [OF inv] by (simp add: s')
      show "next_page_id s \<le> next_page_id ?s'" by (simp add: s')
      show "next_page_id ?s' mod int (num_instances s) = int (instance_index s)"
        using bpm_inv_alloc [OF inv] by (simp add: s')
    qed
  next
    case victim
    let ?f = "last (pin_lists (replacer s))"
    let ?pg = "loaded_page (pages s ! ?f) p (stored (evict_disk s ?f) p)"
    let ?s' = "snd (FetchPgImp s p)"
    note vf = last_victim_facts [OF inv victim(2)]
    have "?f < length (pages s)" using vf(1) bpm_inv_len [OF inv] by simp
    then have s': "?s' = s\<lparr>replacer := snd (Victim (replacer s)),
        disk_manager := (evict_disk s ?f)\<lparr>calls := calls (evict_disk s ?f) @ [ReadCall p]\<rparr>,
        page_table := ((page_table s)(page_id (pages s ! ?f) := None))(p \<mapsto> ?f),
        pages := (pages s)[?f := ?pg]\<rparr>"
      using None victim by (simp add: FetchPgImp_victim [where f = ?f])
    show ?thesis
    proof (rule bpm_inv_install [OF inv vf(1), where q = p and pg = ?pg])
      show "same_config s ?s'" by (simp add: s' same_config_def)
      show "pages ?s' = (pages s)[?f := ?pg]" by (simp add: s')
      show "distinct (free_list ?s')" using victim(1) by (simp add: s')
      show "\<And>g. g \<in> set (free_list ?s') \<Longrightarrow> g \<in> set (free_list s) \<and> g \<noteq> ?f"
        using victim(1) by (simp add: s')
      show "\<And>q g. page_table ?s' q = Some g \<Longrightarrow>
              (q = p \<and> g = ?f) \<or> (page_table s q = Some g \<and> g \<noteq> ?f)"
        using vf(2) by (auto simp: s' split: if_splits)
      show "page_id ?pg = p" by (simp add: loaded_page_def)
      show "0 \<le> pin_count ?pg" by (simp add: loaded_page_def)
      show "replacer_inv (pool_size s) (replacer ?s')"
        using bpm_inv_repl [OF inv] by (simp add: s' replacer_inv_Victim)
      show "next_page_id s \<le> next_page_id ?s'" by (simp add: s')
      show "next_page_id ?s' mod int (num_instances s) = int (instance_index s)"
        using bpm_inv_alloc [OF inv] by (simp add: s')
    qed
  qed
qed

lemma bpm_inv_UnpinPgImp:
  assumes inv: "bpm_inv s"
  shows "bpm_inv (snd (UnpinPgImp s p d))"
proof (cases "page_table s p")
  case None
  with inv show ?thesis by (simp add: UnpinPgImp_absent)
next
  case (Some f)
  note tf = bpm_inv_table [OF inv Some]
  show ?thesis
  proof (cases "pin_count (pages s ! f) \<le> 0")
    case True
    with Some inv show ?thesis by (simp add: UnpinPgImp_zero)
  next
    case False
    let ?pg = "(pages s ! f)\<lparr>is_dirty := is_dirty (pages s ! f) \<or> d,
                               pin_count := pin_count (pages s ! f) - 1\<rparr>"
    let ?r = "if pin_count (pages s ! f) = 1 then Unpin (replacer s) f else replacer s"
    let ?s' = "snd (UnpinPgImp s p d)"
    have "f < length (pages s)" using tf bpm_inv_len [OF inv] by simp
    then have s': "?s' = s\<lparr>pages := (pages s)[f := ?pg], replacer := ?r\<rparr>"
      using Some False by (simp add: UnpinPgImp_pinned [where f = f])
    show ?thesis
    proof (rule bpm_inv_touch [OF inv, where f = f and pg = ?pg])
      show "same_config s ?s'" by (simp add: s' same_config_def)
      show "pages ?s' = (pages s)[f := ?pg]" by (simp add: s')
      show "free_list ?s' = free_list s" by (simp add: s')
      show "page_table ?s' = page_table s" by (simp add: s')
      show "next_page_id ?s' = next_page_id s" by (simp add: s')
      show "page_id ?pg = page_id (pages s ! f)" by simp
      show "0 \<le> pin_count ?pg" using False by simp
      show "replacer_inv (pool_size s) (replacer ?s')"
        using bpm_inv_repl [OF inv] tf by (simp add: s' replacer_inv_Unpin)
    qed
  qed
qed

lemma bpm_inv_clear_dirty:
  assumes inv: "bpm_inv s" and f: "f < pool_size s"
  shows "bpm_inv (s\<lparr>disk_manager := d, pages := (pages s)[f := (pages s ! f)\<lparr>is_dirty := False\<rparr>]\<rparr>)"
    (is "bpm_inv ?s'")
proof (rule bpm_inv_touch [OF inv, where f = f and pg = "(pages s ! f)\<lparr>is_dirty := False\<rparr>"])
  show "same_config s ?s'" by (simp add: same_config_def)
  show "pages ?s' = (pages s)[f := (pages s ! f)\<lparr>is_dirty := False\<rparr>]" by simp
  show "free_list ?s' = free_list s" by simp
  show "page_table ?s' = page_table s" by simp
  show "next_page_id ?s' = next_page_id s" by simp
  show "page_id ((pages s ! f)\<lparr>is_dirty := False\<rparr>) = page_id (pages s ! f)" by simp
  show "0 \<le> pin_count ((pages s ! f)\<lparr>is_dirty := False\<rparr>)"
    using bpm_inv_pins [OF inv f] by simp
  show "replacer_inv (pool_size s) (replacer ?s')" using bpm_inv_repl [OF inv] by simp
qed

lemma bpm_inv_FlushPgImp:
  assumes inv: "bpm_inv s"
  shows "bpm_inv (snd (FlushPgImp s p))"
proof (cases "page_table s p")
  case None
  with inv show ?thesis by (simp add: FlushPgImp_def)
next
  case (Some f)
  then have "f < pool_size s" using bpm_inv_table [OF inv] by simp
  from bpm_inv_clear_dirty [OF inv this] Some inv show ?thesis
    by (simp add: FlushPgImp_def)
qed

lemma bpm_inv_flush_frame:
  assumes inv: "bpm_inv s" and i: "i < pool_size s"
  shows "bpm_inv (flush_frame i s)"
  using bpm_inv_clear_dirty [OF inv i] inv by (simp add: flush_frame_def)

lemma pool_size_flush_frame: "pool_size (flush_frame i s) = pool_size s"
  by (simp add: flush_frame_def)

lemma bpm_inv_fold_flush:
  "bpm_inv s \<Longrightarrow> \<forall>i \<in> set js. i < pool_size s \<Longrightarrow> bpm_inv (fold flush_frame js s)"
proof (induction js arbitrary: s)
  case Nil
  then show ?case by simp
next
  case (Cons i js)
  then show ?case by (simp add: bpm_inv_flush_frame pool_size_flush_frame)
qed

lemma bpm_inv_FlushAllPgsImp: "bpm_inv s \<Longrightarrow> bpm_inv (FlushAllPgsImp s)"
  unfolding FlushAllPgsImp_def by (rule bpm_inv_fold_flush) simp_all

lemma bpm_inv_DeletePgImp:
  assumes inv: "bpm_inv s"
  shows "bpm_inv (snd (DeletePgImp s p))"
proof (cases "page_table s p")
  case None
  with inv show ?thesis by (simp add: DeletePgImp_absent)
next
  case (Some f)
  show ?thesis
  proof (cases "pin_count (pages s ! f) = 0")
    case True
    with Some bpm_inv_delete [OF inv Some] show ?thesis by (simp add: DeletePgImp_unpinned)
  next
    case False
    with Some inv show ?thesis by (simp add: DeletePgImp_pinned)
  qed
qed

lemma bpm_inv_step:
  assumes "bpm_inv s" and "step s x = Some s'"
  shows "bpm_inv s'"
proof (cases x)
  case NewPage
  with assms obtain res out' where "NewPgImp s 0 = Some (res, out', s')" by auto
  with assms(1) show ?thesis by (rule bpm_inv_NewPgImp)
next
  case (FetchPage p)
  with assms bpm_inv_FetchPgImp [of s p] show ?thesis by auto
next
  case (UnpinPage p d)
  with assms bpm_inv_UnpinPgImp [of s p d] show ?thesis by auto
next
  case (FlushPage p)
  with assms bpm_inv_FlushPgImp [of s p] show ?thesis by auto
next
  case FlushAllPages
  with assms bpm_inv_FlushAllPgsImp [of s] show ?thesis by auto
next
  case (DeletePage p)
  with assms bpm_inv_DeletePgImp [of s p] show ?thesis by auto
qed

lemma reachable_bpm_inv: "reachable s \<Longrightarrow> bpm_inv s"
  by (induction rule: reachable.induct) (auto intro: bpm_inv_new bpm_inv_step)

lemma step_total: "bpm_inv s \<Longrightarrow> \<exists>s'. step s x = Some s'"
  using NewPgImp_total [of s 0] by (cases x) auto

lemma reachable_run:
  "reachable s \<Longrightarrow> run s xs = Some s' \<Longrightarrow> reachable s'"
proof (induction xs arbitrary: s)
  case Nil
  then show ?case by simp
next
  case (Cons x xs)
  then show ?case by (auto split: option.splits intro: reachable_step)
qed

lemma pool_after_reachable: "pool_after n xs = Some s \<Longrightarrow> reachable s"
  unfolding pool_after_def
  by (auto split: option.splits intro: reachable_run reachable_init)

section \<open>Evaluating the example pools\<close>

lemma upt_small: "[0..<2] = [0, 1]" "[0..<3] = [0, 1, 2]" "[0..<4] = [0, 1, 2, 3]"
  by code_simp+

lemma replicate_2: "replicate 2 x = [x, x]"
  by (simp add: numeral_2_eq_2)

lemmas eval_defs = upt_small replicate_2
  pool_after_def new_BufferPoolManagerInstance_def new_Page_def new_LRUReplacer_def
  NewPgImp_def FetchPgImp_def UnpinPgImp_def DeletePgImp_def FlushPgImp_def FlushAllPgsImp_def
  flush_frame_def AllocatePage_def ValidatePageId_def Victim_def Pin_def Unpin_def Size_def
  ResetMemory_def WritePage_def ReadPage_def INVALID_PAGE_ID_def disk0_def Let_def

section \<open>A failed NewPage allocates nothing\<close>

lemma NewPgImp_None_result:
  assumes "NewPgImp s out = Some (None, out', s')"
  shows "free_list s = [] \<and> pin_lists (replacer s) = []"
proof (rule ccontr)
  assume n: "\<not> (free_list s = [] \<and> pin_lists (replacer s) = [])"
  show False
  proof (cases "AllocatePage s")
    case None
    with n assms show False by (auto simp: NewPgImp_def Size_def)
  next
    case (Some a)
    obtain pid s1 where a: "a = (pid, s1)" by (cases a)
    have fl: "free_list s1 = free_list s" and rp: "replacer s1 = replacer s"
      using Some a by (auto simp: AllocatePage_def Let_def split: if_splits)
    show False
    proof (cases "free_list s = []")
      case True
      with n have "pin_lists (replacer s) \<noteq> []" by simp
      with assms Some a True fl rp show False
        by (simp add: NewPgImp_def Size_def Victim_nonempty Let_def)
    next
      case False
      with assms Some a fl show False by (simp add: NewPgImp_def)
    qed
  qed
qed

lemma pool_full_1:
  "pool_after 1 [NewPage] =
   Some \<lparr>pool_size = 1, num_instances = 1, instance_index = 0, next_page_id = 1,
     pages = [\<lparr>data = [0, 0], page_id = 0, pin_count = 1, is_dirty = False\<rparr>],
     replacer = \<lparr>num_pages = 1, pin_lists = [], pin_map_table = Map.empty\<rparr>,
     free_list = [], page_table = [0 \<mapsto> 0],
     disk_manager = disk0\<rparr>"
  by (simp add: eval_defs)

text \<open>
  C9. When the free list is empty and the replacer holds no frame, \<^verbatim>\<open>NewPgImp\<close> returns
  \<^verbatim>\<open>nullptr\<close> and changes nothing: the state (in particular \<^verbatim>\<open>next_page_id_\<close>) and the
  caller's \<^verbatim>\<open>*page_id\<close> are as before. Conversely every call that returns \<^verbatim>\<open>nullptr\<close> is
  such a call, so a failed call never consumes an identifier.
\<close>

theorem NewPgImp_exhausted_allocates_nothing:
  "(free_list s = [] \<and> Size (replacer s) = 0 \<longrightarrow> NewPgImp s out = Some (None, out, s)) \<and>
   (NewPgImp s out = Some (None, out', s') \<longrightarrow>
      out' = out \<and> s' = s \<and> next_page_id s' = next_page_id s)"
proof (intro conjI impI)
  assume "free_list s = [] \<and> Size (replacer s) = 0"
  then show "NewPgImp s out = Some (None, out, s)" by (simp add: NewPgImp_def)
next
  assume a: "NewPgImp s out = Some (None, out', s')"
  from NewPgImp_None_result [OF a] a have "out' = out \<and> s' = s" by (simp add: NewPgImp_full)
  then show "out' = out" "s' = s" "next_page_id s' = next_page_id s" by simp_all
qed

theorem NewPgImp_exhausted_witness:
  "(case pool_after 1 [NewPage] of
      None \<Rightarrow> False
    | Some s \<Rightarrow> free_list s = [] \<and> Size (replacer s) = 0 \<and> NewPgImp s 7 = Some (None, 7, s))"
proof -
  obtain s where s: "pool_after 1 [NewPage] = Some s" using pool_full_1 by blast
  then have "free_list s = [] \<and> Size (replacer s) = 0"
    using pool_full_1 by (auto simp: Size_def)
  with NewPgImp_exhausted_allocates_nothing [of s 7 7 s] s show ?thesis by simp
qed

section \<open>UnpinPage\<close>

text \<open>
  C7. In every reachable state \<^verbatim>\<open>UnpinPgImp\<close> returns false exactly when the page is not
  resident or its frame's pin count is zero, and then the state is unchanged. Otherwise it
  returns true, the frame's dirty flag becomes its old value or-ed with the argument, the pin
  count goes down by one, nothing else in the frame table, page table or free list changes,
  and \<^verbatim>\<open>replacer_->Unpin\<close> is called exactly when the new pin count is zero, after which the
  frame is in the replacer's list. (Pin counts are never negative in a reachable state, so
  the code's test \<^verbatim>\<open><= 0\<close> is the test for zero.)
\<close>

theorem UnpinPgImp_spec:
  assumes "reachable s"
  shows
   "(\<not> fst (UnpinPgImp s p d) \<longleftrightarrow>
       page_table s p = None \<or> (\<exists>f. page_table s p = Some f \<and> pin_count (pages s ! f) = 0)) \<and>
    (\<not> fst (UnpinPgImp s p d) \<longrightarrow> snd (UnpinPgImp s p d) = s) \<and>
    (\<forall>f. page_table s p = Some f \<and> pin_count (pages s ! f) \<noteq> 0 \<longrightarrow>
       fst (UnpinPgImp s p d) \<and>
       snd (UnpinPgImp s p d) =
         s\<lparr>pages := (pages s)[f := (pages s ! f)\<lparr>is_dirty := is_dirty (pages s ! f) \<or> d,
                                                  pin_count := pin_count (pages s ! f) - 1\<rparr>],
           replacer := (if pin_count (pages s ! f) - 1 = 0 then Unpin (replacer s) f
                        else replacer s)\<rparr> \<and>
       is_dirty (pages (snd (UnpinPgImp s p d)) ! f) = (is_dirty (pages s ! f) \<or> d) \<and>
       pin_count (pages (snd (UnpinPgImp s p d)) ! f) = pin_count (pages s ! f) - 1 \<and>
       (pin_count (pages s ! f) - 1 = 0 \<longrightarrow>
          f \<in> set (pin_lists (replacer (snd (UnpinPgImp s p d))))))"
proof -
  note inv = reachable_bpm_inv [OF assms]
  show ?thesis
  proof (cases "page_table s p")
    case None
    then show ?thesis by (simp add: UnpinPgImp_absent)
  next
    case (Some f)
    note tf = bpm_inv_table [OF inv Some]
    have len: "f < length (pages s)" using tf bpm_inv_len [OF inv] by simp
    have nonneg: "0 \<le> pin_count (pages s ! f)" using bpm_inv_pins [OF inv] tf by simp
    show ?thesis
    proof (cases "pin_count (pages s ! f) = 0")
      case True
      with Some show ?thesis by (simp add: UnpinPgImp_zero)
    next
      case False
      with nonneg have pos: "0 < pin_count (pages s ! f)" by simp
      have mem: "f \<in> set (pin_lists (Unpin (replacer s) f))"
        using Unpin_member [OF bpm_inv_repl [OF inv]] tf by simp
      have one: "(pin_count (pages s ! f) - 1 = 0) = (pin_count (pages s ! f) = 1)" by auto
      show ?thesis
        using Some False pos len mem
        by (simp add: UnpinPgImp_pinned [OF Some pos len] one)
    qed
  qed
qed

lemma unpin_example:
  "map_option (\<lambda>s. (page_table s 0, pin_count (pages s ! 1), is_dirty (pages s ! 1),
        pin_lists (replacer s), page_table s 9, length (pages s)))
     (pool_after 2 [NewPage]) = Some (Some 1, 1, False, [], None, 2)"
  by code_simp

theorem UnpinPgImp_witness:
  "(case pool_after 2 [NewPage] of
      None \<Rightarrow> False
    | Some s \<Rightarrow>
        page_table s 0 = Some 1 \<and> pin_count (pages s ! 1) = 1 \<and>
        fst (UnpinPgImp s 0 True) \<and>
        is_dirty (pages (snd (UnpinPgImp s 0 True)) ! 1) \<and>
        pin_count (pages (snd (UnpinPgImp s 0 True)) ! 1) = 0 \<and>
        1 \<in> set (pin_lists (replacer (snd (UnpinPgImp s 0 True)))) \<and>
        \<not> fst (UnpinPgImp s 9 True) \<and> snd (UnpinPgImp s 9 True) = s)"
proof -
  obtain s where s: "pool_after 2 [NewPage] = Some s" using unpin_example by blast
  with unpin_example have f: "page_table s 0 = Some 1" "pin_count (pages s ! 1) = 1"
    "page_table s 9 = None" "length (pages s) = 2" by simp_all
  note r = pool_after_reachable [OF s]
  have ne: "pin_count (pages s ! 1) \<noteq> 0" "pin_count (pages s ! 1) - 1 = 0" using f(2) by simp_all
  from UnpinPgImp_spec [OF r, of 0 True] f(1) ne
  have a: "fst (UnpinPgImp s 0 True) \<and>
      is_dirty (pages (snd (UnpinPgImp s 0 True)) ! 1) \<and>
      pin_count (pages (snd (UnpinPgImp s 0 True)) ! 1) = pin_count (pages s ! 1) - 1 \<and>
      1 \<in> set (pin_lists (replacer (snd (UnpinPgImp s 0 True))))"
    by blast
  from UnpinPgImp_spec [OF r, of 9 True] f(3)
  have b: "\<not> fst (UnpinPgImp s 9 True) \<and> snd (UnpinPgImp s 9 True) = s" by blast
  show ?thesis using s f(1,2) a b ne by simp
qed

section \<open>FlushAllPages\<close>

lemma flush_frame_fields:
  "pool_size (flush_frame i s) = pool_size s"
  "free_list (flush_frame i s) = free_list s"
  "page_table (flush_frame i s) = page_table s"
  "replacer (flush_frame i s) = replacer s"
  "next_page_id (flush_frame i s) = next_page_id s"
  "num_instances (flush_frame i s) = num_instances s"
  "instance_index (flush_frame i s) = instance_index s"
  by (simp_all add: flush_frame_def)

lemma flush_prefix:
  assumes "k \<le> length (pages s)"
  shows "pages (fold flush_frame [0..<k] s) = map clear_dirty (take k (pages s)) @ drop k (pages s) \<and>
         calls (disk_manager (fold flush_frame [0..<k] s)) =
           calls (disk_manager s) @ map write_of (filter is_dirty (take k (pages s)))"
  using assms
proof (induction k)
  case 0
  then show ?case by simp
next
  case (Suc k)
  let ?t = "fold flush_frame [0..<k] s"
  from Suc have k: "k < length (pages s)" by simp
  with Suc have ih: "pages ?t = map clear_dirty (take k (pages s)) @ drop k (pages s)"
    "calls (disk_manager ?t) = calls (disk_manager s) @ map write_of (filter is_dirty (take k (pages s)))"
    by simp_all
  have nth: "pages ?t ! k = pages s ! k"
    using k by (simp add: ih(1) nth_append)
  have upd: "(pages ?t)[k := clear_dirty (pages s ! k)] =
             map clear_dirty (take (Suc k) (pages s)) @ drop (Suc k) (pages s)"
    using k by (simp add: ih(1) list_update_append take_Suc_conv_app_nth upd_conv_take_nth_drop)
  have clean: "\<not> is_dirty (pages s ! k) \<Longrightarrow> clear_dirty (pages s ! k) = pages s ! k"
    by (simp add: clear_dirty_def)
  have step: "fold flush_frame [0..<Suc k] s = flush_frame k ?t" by simp
  show ?case
  proof (cases "is_dirty (pages s ! k)")
    case True
    then show ?thesis
      unfolding step using k nth upd ih(2)
      by (simp add: flush_frame_def WritePage_def take_Suc_conv_app_nth write_of_def clear_dirty_def)
  next
    case False
    have "pages ?t = (pages ?t)[k := clear_dirty (pages s ! k)]"
      using clean [OF False] nth by (metis list_update_id)
    with False show ?thesis
      unfolding step using k nth upd ih(2)
      by (simp add: flush_frame_def take_Suc_conv_app_nth)
  qed
qed

lemma fold_flush_fields:
  "free_list (fold flush_frame js s) = free_list s \<and>
   page_table (fold flush_frame js s) = page_table s \<and>
   replacer (fold flush_frame js s) = replacer s \<and>
   next_page_id (fold flush_frame js s) = next_page_id s"
  by (induction js arbitrary: s) (simp_all add: flush_frame_fields)

text \<open>
  C10. After \<^verbatim>\<open>FlushAllPgsImp\<close> no frame is dirty. The frame table is the old one with every
  dirty flag cleared, so a clean frame is untouched; the disk received, after the earlier
  calls, exactly one \<^verbatim>\<open>WritePage\<close> per frame that was dirty, in frame order, keyed by the
  frame's \<^verbatim>\<open>page_id_\<close> and carrying its buffer; free list, page table and replacer are as
  before.
\<close>

theorem FlushAllPgsImp_spec:
  assumes "length (pages s) = pool_size s"
  shows "pages (FlushAllPgsImp s) = map (\<lambda>pg. pg\<lparr>is_dirty := False\<rparr>) (pages s) \<and>
     (\<forall>i < pool_size s. \<not> is_dirty (pages (FlushAllPgsImp s) ! i)) \<and>
     (\<forall>i < pool_size s. \<not> is_dirty (pages s ! i) \<longrightarrow> pages (FlushAllPgsImp s) ! i = pages s ! i) \<and>
     calls (disk_manager (FlushAllPgsImp s)) =
       calls (disk_manager s) @
       map (\<lambda>pg. WriteCall (page_id pg) (data pg)) (filter is_dirty (pages s)) \<and>
     free_list (FlushAllPgsImp s) = free_list s \<and>
     page_table (FlushAllPgsImp s) = page_table s \<and>
     replacer (FlushAllPgsImp s) = replacer s"
proof -
  have p: "pages (FlushAllPgsImp s) = map clear_dirty (pages s)"
    and c: "calls (disk_manager (FlushAllPgsImp s)) =
            calls (disk_manager s) @ map write_of (filter is_dirty (pages s))"
    using flush_prefix [of "pool_size s" s] assms by (simp_all add: FlushAllPgsImp_def)
  have p': "pages (FlushAllPgsImp s) = map (\<lambda>pg. pg\<lparr>is_dirty := False\<rparr>) (pages s)"
    using p by (simp add: clear_dirty_def [abs_def])
  have c': "calls (disk_manager (FlushAllPgsImp s)) =
       calls (disk_manager s) @ map (\<lambda>pg. WriteCall (page_id pg) (data pg)) (filter is_dirty (pages s))"
    using c by (simp add: write_of_def [abs_def])
  show ?thesis
    using p' c' assms fold_flush_fields [of "[0..<pool_size s]" s]
    by (simp add: FlushAllPgsImp_def)
qed

lemma flush_example:
  "map_option (\<lambda>s. (length (pages s), pool_size s, map is_dirty (pages s), map page_id (pages s),
       calls (disk_manager s)))
     (pool_after 2 [NewPage, NewPage, UnpinPage 0 True]) =
   Some (2, 2, [False, True], [1, 0], [])"
  by code_simp

theorem FlushAllPgsImp_witness:
  "(case pool_after 2 [NewPage, NewPage, UnpinPage 0 True] of
      None \<Rightarrow> False
    | Some s \<Rightarrow>
        length (pages s) = pool_size s \<and>
        map is_dirty (pages s) = [False, True] \<and>
        \<not> is_dirty (pages (FlushAllPgsImp s) ! 0) \<and>
        \<not> is_dirty (pages (FlushAllPgsImp s) ! 1) \<and>
        calls (disk_manager (FlushAllPgsImp s)) = [WriteCall 0 [0, 0]])"
proof -
  have e: "map_option (\<lambda>s. (filter is_dirty (pages s)))
     (pool_after 2 [NewPage, NewPage, UnpinPage 0 True]) =
     Some [\<lparr>data = [0, 0], page_id = 0, pin_count = 0, is_dirty = True\<rparr>]"
    by code_simp
  obtain s where s: "pool_after 2 [NewPage, NewPage, UnpinPage 0 True] = Some s"
    using flush_example by blast
  with flush_example e have f: "length (pages s) = pool_size s" "map is_dirty (pages s) = [False, True]"
    "calls (disk_manager s) = []"
    "filter is_dirty (pages s) = [\<lparr>data = [0, 0], page_id = 0, pin_count = 0, is_dirty = True\<rparr>]"
    by simp_all
  from f(2) have l: "length (pages s) = 2" by (metis length_map length_Cons list.size(3) numeral_2_eq_2)
  from FlushAllPgsImp_spec [OF f(1)] s f l show ?thesis
    by simp
qed

section \<open>LRU order of the replacer\<close>

lemma victims_list:
  "victims r k = map Some (take k (rev (pin_lists r))) @ replicate (k - length (pin_lists r)) None"
proof (induction k arbitrary: r)
  case 0
  then show ?case by simp
next
  case (Suc k)
  show ?case
  proof (cases "pin_lists r = []")
    case True
    then show ?thesis using Suc [of r] by (simp add: Victim_empty replicate_app_Cons_same)
  next
    case False
    then obtain xs x where l: "pin_lists r = xs @ [x]" by (metis rev_exhaust)
    then show ?thesis using Suc by (simp add: Victim_nonempty False)
  qed
qed

lemma distinct_bounded_length:
  assumes "distinct xs" "\<forall>x \<in> set xs. x < (n::nat)"
  shows "length xs \<le> n"
proof -
  have "card (set xs) \<le> card {..<n}" using assms(2) by (intro card_mono) auto
  with assms(1) show ?thesis by (simp add: distinct_card)
qed

lemma Unpin_absent:
  assumes "replacer_inv n r" "f \<notin> set (pin_lists r)" "length (pin_lists r) < n" "f < n"
  shows "pin_lists (Unpin r f) = f # pin_lists r"
proof -
  from assms(1,2) have "pin_map_table r f \<noteq> Some It_node" by (simp add: replacer_inv_def)
  then have "pin_map_table r f = None \<or> pin_map_table r f = Some It_end"
    by (cases "pin_map_table r f") (auto intro: list_iterator.exhaust)
  with assms show ?thesis by (auto simp: Unpin_def replacer_inv_def)
qed

lemma unpin_all_order:
  assumes "replacer_inv n r" "distinct fs" "\<forall>f \<in> set fs. f < n"
    "set fs \<inter> set (pin_lists r) = {}"
  shows "pin_lists (unpin_all r fs) = rev fs @ pin_lists r"
  using assms
proof (induction fs arbitrary: r)
  case Nil
  then show ?case by simp
next
  case (Cons f fs)
  have "distinct (f # pin_lists r)" "\<forall>x \<in> set (f # pin_lists r). x < n"
    using Cons.prems by (auto simp: replacer_inv_def)
  then have "length (f # pin_lists r) \<le> n" by (rule distinct_bounded_length)
  then have u: "pin_lists (Unpin r f) = f # pin_lists r"
    using Cons.prems by (intro Unpin_absent) auto
  have "pin_lists (unpin_all (Unpin r f) fs) = rev fs @ pin_lists (Unpin r f)"
    using Cons.prems u by (intro Cons.IH replacer_inv_Unpin) auto
  with u show ?case by simp
qed

text \<open>
  C6. For a replacer of \<open>n\<close> frames whose list and index agree: if no frame is eligible and
  three distinct frames \<open>A\<close>, \<open>B\<close>, \<open>C\<close> of the pool are unpinned in this order, the next
  three calls of \<^verbatim>\<open>Victim\<close> return \<open>A\<close>, \<open>B\<close>, \<open>C\<close> and the fourth reports none. In general,
  unpinning distinct frames that are not eligible puts them behind the frames that already
  are, and successive victims come out oldest first; \<^verbatim>\<open>Victim\<close> on a non-empty list removes
  and returns its last entry, and on an empty list returns false and changes nothing.
\<close>

theorem lru_victim_order:
  assumes "replacer_inv n r"
  shows
    "(pin_lists r = [] \<and> distinct [A, B, C] \<and> A < n \<and> B < n \<and> C < n \<longrightarrow>
        victims (Unpin (Unpin (Unpin r A) B) C) 4 = [Some A, Some B, Some C, None]) \<and>
     (distinct fs \<and> (\<forall>f \<in> set fs. f < n) \<and> set fs \<inter> set (pin_lists r) = {} \<longrightarrow>
        victims (unpin_all r fs) (length (pin_lists r) + length fs + 1) =
          map Some (rev (pin_lists r) @ fs) @ [None]) \<and>
     (pin_lists r \<noteq> [] \<longrightarrow>
        fst (Victim r) = Some (last (pin_lists r)) \<and>
        pin_lists (snd (Victim r)) = butlast (pin_lists r) \<and>
        Size (snd (Victim r)) = Size r - 1) \<and>
     (pin_lists r = [] \<longrightarrow> Victim r = (None, r))"
proof (intro conjI impI)
  assume a: "pin_lists r = [] \<and> distinct [A, B, C] \<and> A < n \<and> B < n \<and> C < n"
  have "pin_lists (unpin_all r [A, B, C]) = rev [A, B, C] @ pin_lists r"
    using a assms by (intro unpin_all_order) auto
  then have "pin_lists (Unpin (Unpin (Unpin r A) B) C) = [C, B, A]" using a by simp
  then show "victims (Unpin (Unpin (Unpin r A) B) C) 4 = [Some A, Some B, Some C, None]"
    by (simp add: victims_list)
next
  assume a: "distinct fs \<and> (\<forall>f \<in> set fs. f < n) \<and> set fs \<inter> set (pin_lists r) = {}"
  have "pin_lists (unpin_all r fs) = rev fs @ pin_lists r"
    using a assms by (intro unpin_all_order) auto
  then show "victims (unpin_all r fs) (length (pin_lists r) + length fs + 1) =
          map Some (rev (pin_lists r) @ fs) @ [None]"
    by (simp add: victims_list)
next
  assume "pin_lists r \<noteq> []"
  then show "fst (Victim r) = Some (last (pin_lists r))"
    "pin_lists (snd (Victim r)) = butlast (pin_lists r)"
    "Size (snd (Victim r)) = Size r - 1"
    by (simp_all add: Victim_nonempty Size_def)
next
  assume "pin_lists r = []"
  then show "Victim r = (None, r)" by (rule Victim_empty)
qed

theorem lru_victim_order_witness:
  "replacer_inv 3 (new_LRUReplacer 3) \<and>
   victims (Unpin (Unpin (Unpin (new_LRUReplacer 3) 2) 0) 1) 4 = [Some 2, Some 0, Some 1, None] \<and>
   victims (unpin_all (new_LRUReplacer 3) [2, 0, 1]) 4 = [Some 2, Some 0, Some 1, None]"
proof -
  have e: "pin_lists (new_LRUReplacer 3) = []" by (simp add: new_LRUReplacer_def)
  from lru_victim_order [OF replacer_inv_new [of 3], of 2 0 1 "[2, 0, 1]"] e replacer_inv_new [of 3]
  show ?thesis by simp
qed

section \<open>Page identifiers of an instance\<close>

lemma next_page_id_FetchPgImp: "next_page_id (snd (FetchPgImp s p)) = next_page_id s"
  by (simp add: FetchPgImp_def ReadPage_def Victim_def Let_def split: option.splits prod.splits)

lemma next_page_id_UnpinPgImp: "next_page_id (snd (UnpinPgImp s p d)) = next_page_id s"
  by (simp add: UnpinPgImp_def Let_def split: option.splits)

lemma next_page_id_FlushPgImp: "next_page_id (snd (FlushPgImp s p)) = next_page_id s"
  by (simp add: FlushPgImp_def split: option.splits)

lemma next_page_id_DeletePgImp: "next_page_id (snd (DeletePgImp s p)) = next_page_id s"
  by (simp add: DeletePgImp_def split: option.splits)

lemma next_page_id_fold_flush: "next_page_id (fold flush_frame js s) = next_page_id s"
  by (induction js arbitrary: s) (simp_all add: flush_frame_def)

lemma next_page_id_FlushAllPgsImp: "next_page_id (FlushAllPgsImp s) = next_page_id s"
  by (simp add: FlushAllPgsImp_def next_page_id_fold_flush)

lemma NewPgImp_alloc:
  assumes inv: "bpm_inv s" and new: "NewPgImp s out = Some (res, out', s')"
  shows "(res = None \<and> next_page_id s' = next_page_id s) \<or>
         (res \<noteq> None \<and> out' = next_page_id s \<and>
          next_page_id s' = next_page_id s + int (num_instances s))"
proof -
  note al = bpm_inv_alloc [OF inv]
  consider (full) "free_list s = []" "pin_lists (replacer s) = []"
    | (free) "free_list s \<noteq> []"
    | (victim) "free_list s = []" "pin_lists (replacer s) \<noteq> []"
    by blast
  then show ?thesis
  proof cases
    case full
    with new show ?thesis by (auto simp: NewPgImp_full)
  next
    case free
    with new al show ?thesis by (auto simp: NewPgImp_free)
  next
    case victim
    have "last (pin_lists (replacer s)) < length (pages s)"
      using last_victim_facts(1) [OF inv victim(2)] bpm_inv_len [OF inv] by simp
    with new victim al show ?thesis
      by (auto simp: NewPgImp_victim [where f = "last (pin_lists (replacer s))"])
  qed
qed

lemma step_alloc:
  assumes inv: "bpm_inv s" and st: "step s x = Some s'"
  shows "(allocated s x = [] \<and> next_page_id s' = next_page_id s) \<or>
         (allocated s x = [next_page_id s] \<and>
          next_page_id s' = next_page_id s + int (num_instances s))"
proof (cases x)
  case NewPage
  with st obtain res out' where n: "NewPgImp s 0 = Some (res, out', s')" by auto
  from NewPgImp_alloc [OF inv n] n NewPage show ?thesis by (cases res) auto
next
  case (FetchPage p)
  with st show ?thesis using next_page_id_FetchPgImp [of s p] by auto
next
  case (UnpinPage p d)
  with st show ?thesis using next_page_id_UnpinPgImp [of s p d] by auto
next
  case (FlushPage p)
  with st show ?thesis using next_page_id_FlushPgImp [of s p] by auto
next
  case FlushAllPages
  with st show ?thesis using next_page_id_FlushAllPgsImp [of s] by auto
next
  case (DeletePage p)
  with st show ?thesis using next_page_id_DeletePgImp [of s p] by auto
qed

lemma same_config_NewPgImp:
  assumes "NewPgImp s out = Some (res, out', s')"
  shows "same_config s s'"
  using assms
  by (auto simp: NewPgImp_def AllocatePage_def same_config_def Let_def Victim_def
      split: if_splits option.splits prod.splits)

lemma same_config_fold_flush: "same_config s (fold flush_frame js s)"
proof (induction js arbitrary: s)
  case Nil
  then show ?case by (simp add: same_config_def)
next
  case (Cons j js)
  have "same_config s (flush_frame j s)" by (simp add: same_config_def flush_frame_def)
  with Cons [of "flush_frame j s"] show ?case by (simp add: same_config_def)
qed

lemma same_config_step:
  assumes "step s x = Some s'"
  shows "same_config s s'"
proof (cases x)
  case NewPage
  with assms obtain res out' where "NewPgImp s 0 = Some (res, out', s')" by auto
  then show ?thesis by (rule same_config_NewPgImp)
next
  case (FetchPage p)
  have "same_config s (snd (FetchPgImp s p))"
    by (simp add: same_config_def FetchPgImp_def ReadPage_def Victim_def Let_def
        split: option.splits prod.splits)
  with FetchPage assms show ?thesis by auto
next
  case (UnpinPage p d)
  with assms show ?thesis
    by (auto simp: same_config_def UnpinPgImp_def Let_def split: option.splits)
next
  case (FlushPage p)
  with assms show ?thesis by (auto simp: same_config_def FlushPgImp_def split: option.splits)
next
  case FlushAllPages
  with assms show ?thesis using same_config_fold_flush by (auto simp: FlushAllPgsImp_def)
next
  case (DeletePage p)
  with assms show ?thesis by (auto simp: same_config_def DeletePgImp_def split: option.splits)
qed

lemma run_total: "bpm_inv s \<Longrightarrow> \<exists>s'. run s xs = Some s'"
proof (induction xs arbitrary: s)
  case Nil
  then show ?case by simp
next
  case (Cons x xs)
  from step_total [OF Cons.prems, of x] obtain s1 where s1: "step s x = Some s1" by blast
  with Cons.IH [OF bpm_inv_step [OF Cons.prems s1]] show ?case by simp
qed

lemma new_page_ids_arith:
  assumes "bpm_inv s"
  shows "new_page_ids s xs =
         map (\<lambda>k. next_page_id s + int k * int (num_instances s)) [0..<length (new_page_ids s xs)]"
  using assms
proof (induction xs arbitrary: s)
  case Nil
  then show ?case by simp
next
  case (Cons x xs)
  from step_total [OF Cons.prems, of x] obtain s1 where s1: "step s x = Some s1" by blast
  note inv1 = bpm_inv_step [OF Cons.prems s1]
  have N: "num_instances s1 = num_instances s"
    using same_config_step [OF s1] by (simp add: same_config_def)
  let ?N = "int (num_instances s)"
  let ?m = "length (new_page_ids s1 xs)"
  have ih: "new_page_ids s1 xs = map (\<lambda>k. next_page_id s1 + int k * ?N) [0..<?m]"
    using Cons.IH [OF inv1] N by simp
  from step_alloc [OF Cons.prems s1] show ?case
  proof
    assume a: "allocated s x = [] \<and> next_page_id s1 = next_page_id s"
    then have "new_page_ids s (x # xs) = new_page_ids s1 xs" using s1 by simp
    with ih a show ?thesis by simp
  next
    assume a: "allocated s x = [next_page_id s] \<and> next_page_id s1 = next_page_id s + ?N"
    then have e: "new_page_ids s (x # xs) = next_page_id s # new_page_ids s1 xs" using s1 by simp
    have "map (\<lambda>k. next_page_id s + int k * ?N) [0..<Suc ?m] =
          next_page_id s # map (\<lambda>k. next_page_id s + int (Suc k) * ?N) [0..<?m]"
      by (simp add: upt_conv_Cons map_Suc_upt [symmetric] del: upt_Suc)
    also have "map (\<lambda>k. next_page_id s + int (Suc k) * ?N) [0..<?m] =
               map (\<lambda>k. next_page_id s1 + int k * ?N) [0..<?m]"
      using a by (simp add: algebra_simps)
    finally show ?thesis using e ih by simp
  qed
qed

lemma sorted_arith:
  assumes "0 < (N::int)"
  shows "sorted_wrt (<) (map (\<lambda>k. a + int k * N) [0..<m])"
  using assms by (simp add: sorted_wrt_iff_nth_less)

lemma new_ctor_fields:
  assumes "new_BufferPoolManagerInstance sz n N i d = Some s0"
  shows "0 < N" "i < N" "next_page_id s0 = int i" "num_instances s0 = N" "instance_index s0 = i"
  using assms by (auto simp: new_BufferPoolManagerInstance_def split: if_splits)

lemma new_page_ids_mod:
  assumes c: "new_BufferPoolManagerInstance sz n N i d = Some s0"
    and p: "p \<in> set (new_page_ids s0 xs)"
  shows "p mod int N = int i"
proof -
  note f = new_ctor_fields [OF c]
  from p new_page_ids_arith [OF bpm_inv_new [OF c], of xs] f
  obtain k where "p = int i + int k * int N" by (metis (no_types, lifting) imageE list.set_map)
  with f show ?thesis by simp
qed

text \<open>
  C8. For an instance constructed with \<open>N\<close> instances and index \<open>i < N\<close>, along every run of
  operations: no assertion fails, the identifiers handed out by \<^verbatim>\<open>NewPage\<close> are
  \<open>i, i + N, i + 2N, ...\<close> in this order, hence strictly increasing and congruent to \<open>i\<close>
  modulo \<open>N\<close>, and they are disjoint from the identifiers of any instance with the same \<open>N\<close>
  and another index. (Identifiers are unbounded integers in the model.)
\<close>

theorem allocated_ids_partitioned:
  assumes "new_BufferPoolManagerInstance sz n N i d = Some s0"
  shows "(\<exists>s. run s0 xs = Some s) \<and>
    new_page_ids s0 xs = map (\<lambda>k. int i + int k * int N) [0..<length (new_page_ids s0 xs)] \<and>
    sorted_wrt (<) (new_page_ids s0 xs) \<and>
    (\<forall>p \<in> set (new_page_ids s0 xs). p mod int N = int i) \<and>
    (\<forall>sz' n' j d' t0 ys.
        new_BufferPoolManagerInstance sz' n' N j d' = Some t0 \<and> j \<noteq> i \<longrightarrow>
        set (new_page_ids s0 xs) \<inter> set (new_page_ids t0 ys) = {})"
proof -
  note f = new_ctor_fields [OF assms]
  note inv = bpm_inv_new [OF assms]
  have ar: "new_page_ids s0 xs = map (\<lambda>k. int i + int k * int N) [0..<length (new_page_ids s0 xs)]"
    using new_page_ids_arith [OF inv, of xs] f by simp
  have so: "sorted_wrt (<) (new_page_ids s0 xs)"
    using sorted_arith [of "int N" "int i" "length (new_page_ids s0 xs)"] f ar by simp
  have md: "\<forall>p \<in> set (new_page_ids s0 xs). p mod int N = int i"
    using new_page_ids_mod [OF assms] by blast
  have dj: "set (new_page_ids s0 xs) \<inter> set (new_page_ids t0 ys) = {}"
    if "new_BufferPoolManagerInstance sz' n' N j d' = Some t0 \<and> j \<noteq> i" for sz' n' j d' t0 ys
  proof -
    from that have c: "new_BufferPoolManagerInstance sz' n' N j d' = Some t0" and ne: "j \<noteq> i"
      by simp_all
    show ?thesis
    proof (rule ccontr)
      assume "set (new_page_ids s0 xs) \<inter> set (new_page_ids t0 ys) \<noteq> {}"
      then obtain p where "p \<in> set (new_page_ids s0 xs)" "p \<in> set (new_page_ids t0 ys)" by blast
      then have "p mod int N = int i" "p mod int N = int j"
        using new_page_ids_mod [OF assms] new_page_ids_mod [OF c] by blast+
      with ne show False by simp
    qed
  qed
  show ?thesis using run_total [OF inv] ar so md dj by blast
qed

lemma ids_run:
  "map_option (\<lambda>s0. new_page_ids s0 [NewPage, NewPage, NewPage, UnpinPage 1 False, NewPage])
     (new_BufferPoolManagerInstance 2 2 3 1 disk0) = Some [1, 4, 7]"
  by code_simp

theorem allocated_ids_witness:
  "(case new_BufferPoolManagerInstance 2 2 3 1 disk0 of
      None \<Rightarrow> False
    | Some s0 \<Rightarrow>
        new_page_ids s0 [NewPage, NewPage, NewPage, UnpinPage 1 False, NewPage] = [1, 4, 7] \<and>
        sorted_wrt (<) (new_page_ids s0 [NewPage, NewPage, NewPage, UnpinPage 1 False, NewPage]))"
proof -
  obtain s0 where s0: "new_BufferPoolManagerInstance 2 2 3 1 disk0 = Some s0"
    using ids_run by blast
  with ids_run
  have "new_page_ids s0 [NewPage, NewPage, NewPage, UnpinPage 1 False, NewPage] = [1, 4, 7]"
    by simp
  with allocated_ids_partitioned [OF s0, of "[NewPage, NewPage, NewPage, UnpinPage 1 False, NewPage]"] s0
  show ?thesis by simp
qed

section \<open>Write-back of a dirty victim\<close>

text \<open>
  C5. Let page \<open>p\<close> be resident in frame \<open>f\<close> of a reachable state, dirty, with the free list
  empty and \<open>f\<close> the replacer's next victim. Then \<^verbatim>\<open>NewPgImp\<close> succeeds on frame \<open>f\<close> and adds
  exactly one disk call, \<^verbatim>\<open>WritePage\<close> of \<open>p\<close> with the frame's buffer; the new page table is
  the old one with \<open>p\<close> removed and then the new identifier mapped to \<open>f\<close>. \<^verbatim>\<open>FetchPgImp\<close> of
  a page \<open>q\<close> that is not resident does the same, followed by the \<^verbatim>\<open>ReadPage\<close> of \<open>q\<close>. A page
  that was unpinned with the dirty argument set is dirty.
\<close>

theorem dirty_victim_written_back:
  assumes "reachable s" and "page_table s p = Some f" and "is_dirty (pages s ! f)"
    and "free_list s = []" and "pin_lists (replacer s) \<noteq> []"
    and "last (pin_lists (replacer s)) = f"
  shows
   "(\<exists>s'. NewPgImp s out = Some (Some f, next_page_id s, s') \<and>
          calls (disk_manager s') = calls (disk_manager s) @ [WriteCall p (data (pages s ! f))] \<and>
          stored (disk_manager s') p = data (pages s ! f) \<and>
          page_table s' = ((page_table s)(p := None))(next_page_id s \<mapsto> f) \<and>
          page_id (pages s' ! f) = next_page_id s \<and> \<not> is_dirty (pages s' ! f)) \<and>
    (page_table s q = None \<longrightarrow>
       fst (FetchPgImp s q) = Some f \<and>
       calls (disk_manager (snd (FetchPgImp s q))) =
         calls (disk_manager s) @ [WriteCall p (data (pages s ! f)), ReadCall q] \<and>
       page_table (snd (FetchPgImp s q)) = ((page_table s)(p := None))(q \<mapsto> f) \<and>
       page_id (pages (snd (FetchPgImp s q)) ! f) = q \<and>
       \<not> is_dirty (pages (snd (FetchPgImp s q)) ! f)) \<and>
    (\<forall>s0 g. reachable s0 \<and> page_table s0 p = Some g \<and> fst (UnpinPgImp s0 p True) \<longrightarrow>
       is_dirty (pages (snd (UnpinPgImp s0 p True)) ! g))"
proof -
  note inv = reachable_bpm_inv [OF assms(1)]
  note tf = bpm_inv_table [OF inv assms(2)]
  have len: "f < length (pages s)" using tf bpm_inv_len [OF inv] by simp
  have pid: "page_id (pages s ! f) = p" using tf by simp
  have ev: "evict_disk s f = WritePage (disk_manager s) p (data (pages s ! f))"
    using assms(3) pid by (simp add: evict_disk_def)
  have new: "NewPgImp s out = Some (Some f, next_page_id s,
       s\<lparr>next_page_id := next_page_id s + int (num_instances s),
         replacer := Pin (snd (Victim (replacer s))) f,
         disk_manager := evict_disk s f,
         page_table := ((page_table s)(page_id (pages s ! f) := None))(next_page_id s \<mapsto> f),
         pages := (pages s)[f := fresh_page (pages s ! f) (next_page_id s)]\<rparr>)"
    using bpm_inv_alloc [OF inv] assms(4,5,6) len by (intro NewPgImp_victim) simp_all
  have c1: "\<exists>s'. NewPgImp s out = Some (Some f, next_page_id s, s') \<and>
          calls (disk_manager s') = calls (disk_manager s) @ [WriteCall p (data (pages s ! f))] \<and>
          stored (disk_manager s') p = data (pages s ! f) \<and>
          page_table s' = ((page_table s)(p := None))(next_page_id s \<mapsto> f) \<and>
          page_id (pages s' ! f) = next_page_id s \<and> \<not> is_dirty (pages s' ! f)"
    unfolding new using len pid by (simp add: ev WritePage_def fresh_page_def)
  have c2: "fst (FetchPgImp s q) = Some f \<and>
       calls (disk_manager (snd (FetchPgImp s q))) =
         calls (disk_manager s) @ [WriteCall p (data (pages s ! f)), ReadCall q] \<and>
       page_table (snd (FetchPgImp s q)) = ((page_table s)(p := None))(q \<mapsto> f) \<and>
       page_id (pages (snd (FetchPgImp s q)) ! f) = q \<and>
       \<not> is_dirty (pages (snd (FetchPgImp s q)) ! f)"
    if q: "page_table s q = None"
  proof -
    have "FetchPgImp s q =
     (Some f,
      s\<lparr>replacer := snd (Victim (replacer s)),
        disk_manager := (evict_disk s f)\<lparr>calls := calls (evict_disk s f) @ [ReadCall q]\<rparr>,
        page_table := ((page_table s)(page_id (pages s ! f) := None))(q \<mapsto> f),
        pages := (pages s)[f := loaded_page (pages s ! f) q (stored (evict_disk s f) q)]\<rparr>)"
      using q assms(4,5,6) len by (intro FetchPgImp_victim) simp_all
    then show ?thesis using len pid by (simp add: ev WritePage_def loaded_page_def)
  qed
  have c3: "is_dirty (pages (snd (UnpinPgImp s0 p True)) ! g)"
    if h: "reachable s0 \<and> page_table s0 p = Some g \<and> fst (UnpinPgImp s0 p True)" for s0 g
  proof -
    note inv0 = reachable_bpm_inv [OF conjunct1 [OF h]]
    from h have t: "page_table s0 p = Some g" by simp
    have l: "g < length (pages s0)" using bpm_inv_table [OF inv0 t] bpm_inv_len [OF inv0] by simp
    have "0 < pin_count (pages s0 ! g)"
    proof (rule ccontr)
      assume "\<not> 0 < pin_count (pages s0 ! g)"
      then have "UnpinPgImp s0 p True = (False, s0)" using t by (simp add: UnpinPgImp_zero)
      with h show False by simp
    qed
    from UnpinPgImp_pinned [OF t this l, of True] l show ?thesis by simp
  qed
  show ?thesis using c1 c2 c3 by blast
qed

lemma dirty_example:
  "map_option (\<lambda>s. (page_table s 3, is_dirty (pages s ! 0), free_list s, pin_lists (replacer s),
       calls (disk_manager s), data (pages s ! 0), next_page_id s, page_table s 8))
     (pool_after 1 [FetchPage 3, UnpinPage 3 True]) =
   Some (Some 0, True, [], [0], [ReadCall 3], [3, 3], 0, None)"
  by code_simp

theorem dirty_victim_witness:
  "(case pool_after 1 [FetchPage 3, UnpinPage 3 True] of
      None \<Rightarrow> False
    | Some s \<Rightarrow>
        page_table s 3 = Some 0 \<and> is_dirty (pages s ! 0) \<and> free_list s = [] \<and>
        pin_lists (replacer s) = [0] \<and>
        (\<exists>s'. NewPgImp s 0 = Some (Some 0, 0, s') \<and>
              calls (disk_manager s') = [ReadCall 3, WriteCall 3 [3, 3]] \<and>
              page_table s' 3 = None) \<and>
        calls (disk_manager (snd (FetchPgImp s 8))) = [ReadCall 3, WriteCall 3 [3, 3], ReadCall 8])"
proof -
  obtain s where s: "pool_after 1 [FetchPage 3, UnpinPage 3 True] = Some s"
    using dirty_example by blast
  with dirty_example have f: "page_table s 3 = Some 0" "is_dirty (pages s ! 0)" "free_list s = []"
    "pin_lists (replacer s) = [0]" "calls (disk_manager s) = [ReadCall 3]"
    "data (pages s ! 0) = [3, 3]" "next_page_id s = 0" "page_table s 8 = None"
    by simp_all
  have g: "pin_lists (replacer s) \<noteq> []" "last (pin_lists (replacer s)) = 0" using f(4) by simp_all
  from dirty_victim_written_back [OF pool_after_reachable [OF s] f(1,2,3) g, of 0 8] s f
  show ?thesis by auto
qed

section \<open>Capacity\<close>

lemma no_leakI:
  assumes "\<And>f. f < pool_size s \<Longrightarrow> f \<notin> set (free_list s) \<Longrightarrow>
             page_table s (page_id (pages s ! f)) = Some f"
    and "\<And>p f. page_table s p = Some f \<Longrightarrow> 0 \<le> p \<and> p < next_page_id s"
    and "\<And>f. f \<in> set (free_list s) \<Longrightarrow> page_id (pages s ! f) = INVALID_PAGE_ID"
  shows "no_leak s"
  using assms unfolding no_leak_def by blast

lemma no_leak_mapped:
  "no_leak s \<Longrightarrow> f < pool_size s \<Longrightarrow> f \<notin> set (free_list s) \<Longrightarrow>
   page_table s (page_id (pages s ! f)) = Some f"
  by (simp add: no_leak_def)

lemma no_leak_keys: "no_leak s \<Longrightarrow> page_table s p = Some f \<Longrightarrow> 0 \<le> p \<and> p < next_page_id s"
  unfolding no_leak_def by blast

lemma no_leak_free:
  "no_leak s \<Longrightarrow> f \<in> set (free_list s) \<Longrightarrow> page_id (pages s ! f) = INVALID_PAGE_ID"
  by (simp add: no_leak_def)

lemma no_leak_new:
  assumes "new_BufferPoolManagerInstance sz n N i d = Some s"
  shows "no_leak s"
  using assms
  by (auto simp: new_BufferPoolManagerInstance_def no_leak_def new_Page_def split: if_splits)

lemma capacity:
  assumes inv: "bpm_inv s" and nl: "no_leak s"
  shows "length (free_list s) + card (dom (page_table s)) = pool_size s"
proof -
  let ?F = "{f. f < pool_size s \<and> f \<notin> set (free_list s)}"
  let ?g = "\<lambda>p. the (page_table s p)"
  have inj: "inj_on ?g (dom (page_table s))"
  proof (rule inj_onI)
    fix p q assume "p \<in> dom (page_table s)" "q \<in> dom (page_table s)" "?g p = ?g q"
    then obtain f where "page_table s p = Some f" "page_table s q = Some f" by auto
    with bpm_inv_table [OF inv] show "p = q" by metis
  qed
  have img: "?g ` dom (page_table s) = ?F"
  proof (intro set_eqI iffI)
    fix f assume "f \<in> ?g ` dom (page_table s)"
    then obtain p where "page_table s p = Some f" by auto
    with bpm_inv_table [OF inv] show "f \<in> ?F" by simp
  next
    fix f assume "f \<in> ?F"
    then have "page_table s (page_id (pages s ! f)) = Some f"
      using no_leak_mapped [OF nl] by simp
    then show "f \<in> ?g ` dom (page_table s)" by force
  qed
  have "card (dom (page_table s)) = card ?F"
    using card_image [OF inj] img by simp
  moreover have "?F = {..<pool_size s} - set (free_list s)" by auto
  moreover have "card ({..<pool_size s} - set (free_list s)) = pool_size s - length (free_list s)"
    using bpm_inv_free_distinct [OF inv] bpm_inv_free_bound [OF inv]
    by (subst card_Diff_subset) (auto simp: distinct_card)
  moreover have "length (free_list s) \<le> pool_size s"
  proof -
    have "card (set (free_list s)) \<le> card {..<pool_size s}"
      using bpm_inv_free_bound [OF inv] by (intro card_mono) auto
    then show ?thesis using bpm_inv_free_distinct [OF inv] by (simp add: distinct_card)
  qed
  ultimately show ?thesis by simp
qed

lemma no_leak_install:
  assumes inv: "bpm_inv s" and nl: "no_leak s" and f: "f < pool_size s"
    and cfg: "same_config s s'"
    and pgs: "pages s' = (pages s)[f := pg]" and pg: "page_id pg = q"
    and t2: "page_table s' q = Some f"
    and t: "\<And>g p. g \<noteq> f \<Longrightarrow> page_table s p = Some g \<Longrightarrow> page_table s' p = Some g"
    and t3: "\<And>p g. page_table s' p = Some g \<Longrightarrow> p = q \<or> page_table s p = Some g"
    and fl: "\<And>g. g \<in> set (free_list s') \<Longrightarrow> g \<in> set (free_list s) \<and> g \<noteq> f"
    and fl2: "\<And>g. g \<noteq> f \<Longrightarrow> g \<notin> set (free_list s') \<Longrightarrow> g \<notin> set (free_list s)"
    and q: "0 \<le> q" "q < next_page_id s'" "next_page_id s \<le> next_page_id s'"
  shows "no_leak s'"
proof (rule no_leakI)
  note c = cfg [unfolded same_config_def]
  note len = bpm_inv_len [OF inv]
  show "page_table s' (page_id (pages s' ! g)) = Some g"
    if "g < pool_size s'" "g \<notin> set (free_list s')" for g
  proof (cases "g = f")
    case True
    with f len pgs pg t2 show ?thesis by simp
  next
    case False
    with that c have "g < pool_size s" "g \<notin> set (free_list s)" using fl2 by auto
    from no_leak_mapped [OF nl this] have "page_table s (page_id (pages s ! g)) = Some g" .
    from t [OF False this] False pgs show ?thesis by simp
  qed
  show "0 \<le> p \<and> p < next_page_id s'" if "page_table s' p = Some g" for p g
    using t3 [OF that] q no_leak_keys [OF nl, of p g] by auto
  show "page_id (pages s' ! g) = INVALID_PAGE_ID" if "g \<in> set (free_list s')" for g
    using fl [OF that] no_leak_free [OF nl, of g] pgs by simp
qed

lemma no_leak_touch:
  assumes nl: "no_leak s"
    and cfg: "same_config s s'"
    and pgs: "pages s' = (pages s)[f := pg]"
    and same: "free_list s' = free_list s" "page_table s' = page_table s"
              "next_page_id s' = next_page_id s"
    and pg: "page_id pg = page_id (pages s ! f)"
  shows "no_leak s'"
proof (rule no_leakI)
  note c = cfg [unfolded same_config_def]
  have pid: "page_id (pages s' ! g) = page_id (pages s ! g)" for g
    using pgs pg by (simp add: nth_update_cases)
  show "page_table s' (page_id (pages s' ! g)) = Some g"
    if "g < pool_size s'" "g \<notin> set (free_list s')" for g
    using that no_leak_mapped [OF nl, of g] c same pid by simp
  show "0 \<le> p \<and> p < next_page_id s'" if "page_table s' p = Some g" for p g
    using that no_leak_keys [OF nl, of p g] same by simp
  show "page_id (pages s' ! g) = INVALID_PAGE_ID" if "g \<in> set (free_list s')" for g
    using that no_leak_free [OF nl, of g] same pid by simp
qed

lemma no_leak_delete:
  assumes inv: "bpm_inv s" and nl: "no_leak s" and t: "page_table s p = Some f"
  shows "no_leak (s\<lparr>pages := (pages s)[f := (pages s ! f)\<lparr>page_id := INVALID_PAGE_ID, is_dirty := False\<rparr>],
               free_list := f # free_list s,
               page_table := (page_table s)(p := None)\<rparr>)"
    (is "no_leak ?s'")
proof (rule no_leakI)
  note tf = bpm_inv_table [OF inv t]
  have len: "f < length (pages s)" using tf bpm_inv_len [OF inv] by simp
  show "page_table ?s' (page_id (pages ?s' ! g)) = Some g"
    if "g < pool_size ?s'" "g \<notin> set (free_list ?s')" for g
  proof -
    from that have g: "g < pool_size s" "g \<noteq> f" "g \<notin> set (free_list s)" by auto
    from no_leak_mapped [OF nl g(1,3)] have m: "page_table s (page_id (pages s ! g)) = Some g" .
    have "page_id (pages s ! g) \<noteq> p" using m t g(2) by auto
    with m g(2) show ?thesis by simp
  qed
  show "0 \<le> q \<and> q < next_page_id ?s'" if "page_table ?s' q = Some g" for q g
    using that no_leak_keys [OF nl, of q g] by (auto split: if_splits)
  show "page_id (pages ?s' ! g) = INVALID_PAGE_ID" if "g \<in> set (free_list ?s')" for g
    using that no_leak_free [OF nl, of g] len by (auto simp: nth_update_cases)
qed

lemma set_butlast_last: "xs \<noteq> [] \<Longrightarrow> g \<noteq> last xs \<Longrightarrow> g \<notin> set (butlast xs) \<Longrightarrow> g \<notin> set xs"
  by (metis append_butlast_last_id in_set_conv_decomp_last rotate1.simps(2) set_ConsD set_rotate1
      snoc_eq_iff_butlast)

lemma no_leak_NewPgImp:
  assumes inv: "bpm_inv s" and nl: "no_leak s" and new: "NewPgImp s out = Some (res, out', s')"
  shows "no_leak s'"
proof -
  note al = bpm_inv_alloc [OF inv]
  have N: "0 < num_instances s" using bpm_inv_inst [OF inv] by simp
  have nx: "0 \<le> next_page_id s" using al by linarith
  consider (full) "free_list s = []" "pin_lists (replacer s) = []"
    | (free) "free_list s \<noteq> []"
    | (victim) "free_list s = []" "pin_lists (replacer s) \<noteq> []"
    by blast
  then show ?thesis
  proof cases
    case full
    with new nl show ?thesis by (simp add: NewPgImp_full)
  next
    case free
    let ?f = "last (free_list s)"
    note ff = last_free_facts [OF inv free]
    have s': "s' = s\<lparr>next_page_id := next_page_id s + int (num_instances s),
            free_list := butlast (free_list s),
            pages := (pages s)[?f := fresh_page (pages s ! ?f) (next_page_id s)],
            page_table := (page_table s)(next_page_id s \<mapsto> ?f),
            replacer := Pin (replacer s) ?f\<rparr>"
      using new free al by (auto simp: NewPgImp_free)
    show ?thesis
    proof (rule no_leak_install [OF inv nl ff(1), where q = "next_page_id s"])
      show "same_config s s'" by (simp add: s' same_config_def)
      show "pages s' = (pages s)[?f := fresh_page (pages s ! ?f) (next_page_id s)]" by (simp add: s')
      show "page_id (fresh_page (pages s ! ?f) (next_page_id s)) = next_page_id s"
        by (simp add: fresh_page_def)
      show "page_table s' (next_page_id s) = Some ?f" by (simp add: s')
      show "\<And>g p. g \<noteq> ?f \<Longrightarrow> page_table s p = Some g \<Longrightarrow> page_table s' p = Some g"
        using no_leak_keys [OF nl] by (auto simp: s')
      show "\<And>p g. page_table s' p = Some g \<Longrightarrow> p = next_page_id s \<or> page_table s p = Some g"
        by (auto simp: s' split: if_splits)
      show "\<And>g. g \<in> set (free_list s') \<Longrightarrow> g \<in> set (free_list s) \<and> g \<noteq> ?f"
        using ff(3) by (simp add: s')
      show "\<And>g. g \<noteq> ?f \<Longrightarrow> g \<notin> set (free_list s') \<Longrightarrow> g \<notin> set (free_list s)"
        using free by (auto simp: s' dest: set_butlast_last)
      show "0 \<le> next_page_id s" by (rule nx)
      show "next_page_id s < next_page_id s'" using N by (simp add: s')
      show "next_page_id s \<le> next_page_id s'" by (simp add: s')
    qed
  next
    case victim
    let ?f = "last (pin_lists (replacer s))"
    note vf = last_victim_facts [OF inv victim(2)]
    have mapped: "page_table s (page_id (pages s ! ?f)) = Some ?f"
      using no_leak_mapped [OF nl vf(1)] victim(1) by simp
    have "?f < length (pages s)" using vf(1) bpm_inv_len [OF inv] by simp
    then have s': "s' = s\<lparr>next_page_id := next_page_id s + int (num_instances s),
            replacer := Pin (snd (Victim (replacer s))) ?f,
            disk_manager := evict_disk s ?f,
            page_table := ((page_table s)(page_id (pages s ! ?f) := None))(next_page_id s \<mapsto> ?f),
            pages := (pages s)[?f := fresh_page (pages s ! ?f) (next_page_id s)]\<rparr>"
      using new victim al by (auto simp: NewPgImp_victim [where f = ?f])
    show ?thesis
    proof (rule no_leak_install [OF inv nl vf(1), where q = "next_page_id s"])
      show "same_config s s'" by (simp add: s' same_config_def)
      show "pages s' = (pages s)[?f := fresh_page (pages s ! ?f) (next_page_id s)]" by (simp add: s')
      show "page_id (fresh_page (pages s ! ?f) (next_page_id s)) = next_page_id s"
        by (simp add: fresh_page_def)
      show "page_table s' (next_page_id s) = Some ?f" by (simp add: s')
      show "\<And>g p. g \<noteq> ?f \<Longrightarrow> page_table s p = Some g \<Longrightarrow> page_table s' p = Some g"
        using no_leak_keys [OF nl] mapped by (auto simp: s')
      show "\<And>p g. page_table s' p = Some g \<Longrightarrow> p = next_page_id s \<or> page_table s p = Some g"
        by (auto simp: s' split: if_splits)
      show "\<And>g. g \<in> set (free_list s') \<Longrightarrow> g \<in> set (free_list s) \<and> g \<noteq> ?f"
        using victim(1) by (simp add: s')
      show "\<And>g. g \<noteq> ?f \<Longrightarrow> g \<notin> set (free_list s') \<Longrightarrow> g \<notin> set (free_list s)"
        by (simp add: s')
      show "0 \<le> next_page_id s" by (rule nx)
      show "next_page_id s < next_page_id s'" using N by (simp add: s')
      show "next_page_id s \<le> next_page_id s'" by (simp add: s')
    qed
  qed
qed

lemma no_leak_FetchPgImp:
  assumes inv: "bpm_inv s" and nl: "no_leak s" and ok: "0 \<le> p" "p < next_page_id s"
  shows "no_leak (snd (FetchPgImp s p))"
proof (cases "page_table s p")
  case (Some f)
  let ?pg = "(pages s ! f)\<lparr>pin_count := pin_count (pages s ! f) + 1\<rparr>"
  have s': "snd (FetchPgImp s p) = s\<lparr>replacer := Pin (replacer s) f, pages := (pages s)[f := ?pg]\<rparr>"
    using Some by (simp add: FetchPgImp_hit)
  show ?thesis
    by (rule no_leak_touch [OF nl, where f = f and pg = ?pg]) (simp_all add: s' same_config_def)
next
  case None
  consider (full) "free_list s = []" "pin_lists (replacer s) = []"
    | (free) "free_list s \<noteq> []"
    | (victim) "free_list s = []" "pin_lists (replacer s) \<noteq> []"
    by blast
  then show ?thesis
  proof cases
    case full
    with None nl show ?thesis by (simp add: FetchPgImp_full)
  next
    case free
    let ?f = "last (free_list s)"
    let ?pg = "loaded_page (pages s ! ?f) p (stored (evict_disk s ?f) p)"
    let ?s' = "snd (FetchPgImp s p)"
    note ff = last_free_facts [OF inv free]
    have "page_id (pages s ! ?f) = INVALID_PAGE_ID" using no_leak_free [OF nl] free by simp
    then have old: "page_id (pages s ! ?f) = - 1" by (simp add: INVALID_PAGE_ID_def)
    have nokey: "page_table s (- 1) = None"
    proof (cases "page_table s (- 1)")
      case (Some g)
      from no_leak_keys [OF nl Some] show ?thesis by simp
    qed simp
    have "?f < length (pages s)" using ff(1) bpm_inv_len [OF inv] by simp
    then have s': "?s' = s\<lparr>free_list := butlast (free_list s),
        disk_manager := (evict_disk s ?f)\<lparr>calls := calls (evict_disk s ?f) @ [ReadCall p]\<rparr>,
        page_table := ((page_table s)(page_id (pages s ! ?f) := None))(p \<mapsto> ?f),
        pages := (pages s)[?f := ?pg]\<rparr>"
      using None free by (simp add: FetchPgImp_free [where f = ?f])
    show ?thesis
    proof (rule no_leak_install [OF inv nl ff(1), where q = p and pg = ?pg])
      show "same_config s ?s'" by (simp add: s' same_config_def)
      show "pages ?s' = (pages s)[?f := ?pg]" by (simp add: s')
      show "page_id ?pg = p" by (simp add: loaded_page_def)
      show "page_table ?s' p = Some ?f" by (simp add: s')
      show "\<And>g q. g \<noteq> ?f \<Longrightarrow> page_table s q = Some g \<Longrightarrow> page_table ?s' q = Some g"
        using None old nokey by (auto simp: s')
      show "\<And>q g. page_table ?s' q = Some g \<Longrightarrow> q = p \<or> page_table s q = Some g"
        by (auto simp: s' split: if_splits)
      show "\<And>g. g \<in> set (free_list ?s') \<Longrightarrow> g \<in> set (free_list s) \<and> g \<noteq> ?f"
        using ff(3) by (simp add: s')
      show "\<And>g. g \<noteq> ?f \<Longrightarrow> g \<notin> set (free_list ?s') \<Longrightarrow> g \<notin> set (free_list s)"
        using free by (auto simp: s' dest: set_butlast_last)
      show "0 \<le> p" by (rule ok(1))
      show "p < next_page_id ?s'" using ok(2) by (simp add: s')
      show "next_page_id s \<le> next_page_id ?s'" by (simp add: s')
    qed
  next
    case victim
    let ?f = "last (pin_lists (replacer s))"
    let ?pg = "loaded_page (pages s ! ?f) p (stored (evict_disk s ?f) p)"
    let ?s' = "snd (FetchPgImp s p)"
    note vf = last_victim_facts [OF inv victim(2)]
    have mapped: "page_table s (page_id (pages s ! ?f)) = Some ?f"
      using no_leak_mapped [OF nl vf(1)] victim(1) by simp
    have "?f < length (pages s)" using vf(1) bpm_inv_len [OF inv] by simp
    then have s': "?s' = s\<lparr>replacer := snd (Victim (replacer s)),
        disk_manager := (evict_disk s ?f)\<lparr>calls := calls (evict_disk s ?f) @ [ReadCall p]\<rparr>,
        page_table := ((page_table s)(page_id (pages s ! ?f) := None))(p \<mapsto> ?f),
        pages := (pages s)[?f := ?pg]\<rparr>"
      using None victim by (simp add: FetchPgImp_victim [where f = ?f])
    show ?thesis
    proof (rule no_leak_install [OF inv nl vf(1), where q = p and pg = ?pg])
      show "same_config s ?s'" by (simp add: s' same_config_def)
      show "pages ?s' = (pages s)[?f := ?pg]" by (simp add: s')
      show "page_id ?pg = p" by (simp add: loaded_page_def)
      show "page_table ?s' p = Some ?f" by (simp add: s')
      show "\<And>g q. g \<noteq> ?f \<Longrightarrow> page_table s q = Some g \<Longrightarrow> page_table ?s' q = Some g"
        using None mapped by (auto simp: s')
      show "\<And>q g. page_table ?s' q = Some g \<Longrightarrow> q = p \<or> page_table s q = Some g"
        by (auto simp: s' split: if_splits)
      show "\<And>g. g \<in> set (free_list ?s') \<Longrightarrow> g \<in> set (free_list s) \<and> g \<noteq> ?f"
        using victim(1) by (simp add: s')
      show "\<And>g. g \<noteq> ?f \<Longrightarrow> g \<notin> set (free_list ?s') \<Longrightarrow> g \<notin> set (free_list s)"
        by (simp add: s')
      show "0 \<le> p" by (rule ok(1))
      show "p < next_page_id ?s'" using ok(2) by (simp add: s')
      show "next_page_id s \<le> next_page_id ?s'" by (simp add: s')
    qed
  qed
qed

lemma no_leak_UnpinPgImp:
  assumes inv: "bpm_inv s" and nl: "no_leak s"
  shows "no_leak (snd (UnpinPgImp s p d))"
proof (cases "page_table s p")
  case None
  with nl show ?thesis by (simp add: UnpinPgImp_absent)
next
  case (Some f)
  show ?thesis
  proof (cases "pin_count (pages s ! f) \<le> 0")
    case True
    with Some nl show ?thesis by (simp add: UnpinPgImp_zero)
  next
    case False
    let ?pg = "(pages s ! f)\<lparr>is_dirty := is_dirty (pages s ! f) \<or> d,
                               pin_count := pin_count (pages s ! f) - 1\<rparr>"
    have "f < length (pages s)" using bpm_inv_table [OF inv Some] bpm_inv_len [OF inv] by simp
    then have s': "snd (UnpinPgImp s p d) =
        s\<lparr>pages := (pages s)[f := ?pg],
          replacer := (if pin_count (pages s ! f) = 1 then Unpin (replacer s) f else replacer s)\<rparr>"
      using Some False by (simp add: UnpinPgImp_pinned [where f = f])
    show ?thesis
      by (rule no_leak_touch [OF nl, where f = f and pg = ?pg]) (simp_all add: s' same_config_def)
  qed
qed

lemma no_leak_clear_dirty:
  assumes nl: "no_leak s"
  shows "no_leak (s\<lparr>disk_manager := d, pages := (pages s)[f := (pages s ! f)\<lparr>is_dirty := False\<rparr>]\<rparr>)"
  by (rule no_leak_touch [OF nl, where f = f and pg = "(pages s ! f)\<lparr>is_dirty := False\<rparr>"])
     (simp_all add: same_config_def)

lemma no_leak_FlushPgImp: "no_leak s \<Longrightarrow> no_leak (snd (FlushPgImp s p))"
  by (simp add: FlushPgImp_def no_leak_clear_dirty split: option.splits)

lemma no_leak_flush_frame: "no_leak s \<Longrightarrow> no_leak (flush_frame i s)"
  by (simp add: flush_frame_def no_leak_clear_dirty)

lemma no_leak_FlushAllPgsImp: "no_leak s \<Longrightarrow> no_leak (FlushAllPgsImp s)"
proof -
  have "no_leak s \<Longrightarrow> no_leak (fold flush_frame js s)" for js
    by (induction js arbitrary: s) (simp_all add: no_leak_flush_frame)
  then show "no_leak s \<Longrightarrow> no_leak (FlushAllPgsImp s)" by (simp add: FlushAllPgsImp_def)
qed

lemma no_leak_DeletePgImp:
  assumes inv: "bpm_inv s" and nl: "no_leak s"
  shows "no_leak (snd (DeletePgImp s p))"
proof (cases "page_table s p")
  case None
  with nl show ?thesis by (simp add: DeletePgImp_absent)
next
  case (Some f)
  show ?thesis
  proof (cases "pin_count (pages s ! f) = 0")
    case True
    with Some no_leak_delete [OF inv nl Some] show ?thesis by (simp add: DeletePgImp_unpinned)
  next
    case False
    with Some nl show ?thesis by (simp add: DeletePgImp_pinned)
  qed
qed

lemma no_leak_step:
  assumes inv: "bpm_inv s" and nl: "no_leak s" and ok: "op_ok s x" and st: "step s x = Some s'"
  shows "no_leak s'"
proof (cases x)
  case NewPage
  with st obtain res out' where "NewPgImp s 0 = Some (res, out', s')" by auto
  with inv nl show ?thesis by (rule no_leak_NewPgImp)
next
  case (FetchPage p)
  with st ok no_leak_FetchPgImp [OF inv nl, of p] show ?thesis by auto
next
  case (UnpinPage p d)
  with st no_leak_UnpinPgImp [OF inv nl, of p d] show ?thesis by auto
next
  case (FlushPage p)
  with st no_leak_FlushPgImp [OF nl, of p] show ?thesis by auto
next
  case FlushAllPages
  with st no_leak_FlushAllPgsImp [OF nl] show ?thesis by auto
next
  case (DeletePage p)
  with st no_leak_DeletePgImp [OF inv nl, of p] show ?thesis by auto
qed

lemma no_leak_run:
  assumes "bpm_inv s" "no_leak s" "fetches_allocated s xs" "run s xs = Some s'"
  shows "bpm_inv s' \<and> no_leak s'"
  using assms
proof (induction xs arbitrary: s)
  case Nil
  then show ?case by simp
next
  case (Cons x xs)
  from Cons.prems(4) obtain s1 where s1: "step s x = Some s1" and r: "run s1 xs = Some s'"
    by (auto split: option.splits)
  from Cons.prems(3) s1 have ok: "op_ok s x" and fa: "fetches_allocated s1 xs" by simp_all
  show ?case
    using Cons.IH [OF bpm_inv_step [OF Cons.prems(1) s1]
        no_leak_step [OF Cons.prems(1,2) ok s1] fa r] .
qed

text \<open>
  C2. In every state reached from a new pool by operations whose \<^verbatim>\<open>FetchPage\<close> arguments are
  identifiers the allocator has already handed out (non-negative and below
  \<^verbatim>\<open>next_page_id_\<close>), the length of the free list plus the number of page-table entries is
  the pool size.
\<close>

theorem capacity_invariant:
  assumes "new_BufferPoolManagerInstance sz n N i d = Some s0"
    and "fetches_allocated s0 xs" and "run s0 xs = Some s"
  shows "length (free_list s) + card (dom (page_table s)) = pool_size s \<and> pool_size s = n"
proof -
  from no_leak_run [OF bpm_inv_new [OF assms(1)] no_leak_new [OF assms(1)] assms(2,3)]
  have "bpm_inv s" "no_leak s" by simp_all
  then have "length (free_list s) + card (dom (page_table s)) = pool_size s" by (rule capacity)
  moreover have "pool_size s = pool_size s0"
    using assms(3)
  proof (induction xs arbitrary: s0)
    case Nil
    then show ?case by simp
  next
    case (Cons x xs)
    then obtain s1 where s1: "step s0 x = Some s1" and r: "run s1 xs = Some s"
      by (auto split: option.splits)
    from same_config_step [OF s1] Cons.IH [OF r] show ?case by (simp add: same_config_def)
  qed
  moreover have "pool_size s0 = n"
    using assms(1) by (auto simp: new_BufferPoolManagerInstance_def split: if_splits)
  ultimately show ?thesis by simp
qed

theorem capacity_invariant_witness:
  "(case new_BufferPoolManagerInstance 2 2 1 0 disk0 of
      None \<Rightarrow> False
    | Some s0 \<Rightarrow>
        fetches_allocated s0 [NewPage, UnpinPage 0 True, FetchPage 0, NewPage, DeletePage 1] \<and>
        (case run s0 [NewPage, UnpinPage 0 True, FetchPage 0, NewPage, DeletePage 1] of
           None \<Rightarrow> False
         | Some s \<Rightarrow> length (free_list s) + card (dom (page_table s)) = 2))"
proof -
  let ?xs = "[NewPage, UnpinPage 0 True, FetchPage 0, NewPage, DeletePage 1]"
  have e: "map_option (\<lambda>s0. fetches_allocated s0 ?xs) (new_BufferPoolManagerInstance 2 2 1 0 disk0) = Some True"
    by code_simp
  then obtain s0 where s0: "new_BufferPoolManagerInstance 2 2 1 0 disk0 = Some s0" by blast
  with e have fa: "fetches_allocated s0 ?xs" by simp
  obtain s where s: "run s0 ?xs = Some s"
    using run_total [OF bpm_inv_new [OF s0]] by blast
  from capacity_invariant [OF s0 fa s] s0 fa s show ?thesis by simp
qed

text \<open>
  Without the restriction the sum can drop: in a pool of two frames, \<^verbatim>\<open>FetchPage(0)\<close> puts
  page 0 in frame 1, and the first \<^verbatim>\<open>NewPage\<close> allocates identifier 0 again and overwrites
  the page-table entry with frame 0. The free list is empty and the page table has one entry.
\<close>

theorem capacity_counterexample:
  "(case pool_after 2 [FetchPage 0, NewPage] of
      None \<Rightarrow> False
    | Some s \<Rightarrow> pool_size s = 2 \<and> length (free_list s) + card (dom (page_table s)) = 1)"
  by (simp add: eval_defs)

section \<open>DeletePage\<close>

text \<open>
  C3, as the code has it. For a resident page with pin count zero in a reachable state,
  \<^verbatim>\<open>DeletePgImp\<close> returns true, sets the frame's \<^verbatim>\<open>page_id_\<close> to the sentinel, clears the
  dirty flag, removes the page from the page table and puts the frame at the front of the
  free list. \<^verbatim>\<open>NewPgImp\<close> and \<^verbatim>\<open>FetchPgImp\<close> take the frame at the back of the free list:
  the deleted frame is reused only after every frame that was in the free list before.
\<close>

theorem DeletePgImp_unpinned_spec:
  assumes "reachable s" and "page_table s p = Some f" and "pin_count (pages s ! f) = 0"
  shows "fst (DeletePgImp s p) \<and>
    page_id (pages (snd (DeletePgImp s p)) ! f) = INVALID_PAGE_ID \<and>
    \<not> is_dirty (pages (snd (DeletePgImp s p)) ! f) \<and>
    page_table (snd (DeletePgImp s p)) = (page_table s)(p := None) \<and>
    free_list (snd (DeletePgImp s p)) = f # free_list s \<and>
    (\<forall>out. \<exists>out' s''. NewPgImp (snd (DeletePgImp s p)) out =
                          Some (Some (last (f # free_list s)), out', s'')) \<and>
    (\<forall>q. page_table (snd (DeletePgImp s p)) q = None \<longrightarrow>
         fst (FetchPgImp (snd (DeletePgImp s p)) q) = Some (last (f # free_list s))) \<and>
    (free_list s \<noteq> [] \<longrightarrow>
       last (f # free_list s) = last (free_list s) \<and> last (free_list s) \<noteq> f)"
proof -
  note inv = reachable_bpm_inv [OF assms(1)]
  note tf = bpm_inv_table [OF inv assms(2)]
  have len: "f < length (pages s)" using tf bpm_inv_len [OF inv] by simp
  let ?s1 = "snd (DeletePgImp s p)"
  have s1: "?s1 = s\<lparr>pages := (pages s)[f := (pages s ! f)\<lparr>page_id := INVALID_PAGE_ID, is_dirty := False\<rparr>],
               free_list := f # free_list s,
               page_table := (page_table s)(p := None)\<rparr>"
    and ok: "fst (DeletePgImp s p)"
    using assms(2,3) by (simp_all add: DeletePgImp_unpinned)
  have inv1: "bpm_inv ?s1" by (rule bpm_inv_DeletePgImp [OF inv])
  have fl: "free_list ?s1 = f # free_list s" by (simp add: s1)
  have new: "\<exists>out' s''. NewPgImp ?s1 out = Some (Some (last (f # free_list s)), out', s'')" for out
    using NewPgImp_free [of ?s1 out] bpm_inv_alloc [OF inv1] fl by simp
  have fetch: "fst (FetchPgImp ?s1 q) = Some (last (f # free_list s))"
    if "page_table ?s1 q = None" for q
  proof -
    have "last (free_list ?s1) < length (pages ?s1)"
      using last_free_facts(1) [OF inv1] bpm_inv_len [OF inv1] fl by simp
    from FetchPgImp_free [OF that _ refl this] fl show ?thesis by simp
  qed
  have order: "last (f # free_list s) = last (free_list s) \<and> last (free_list s) \<noteq> f"
    if "free_list s \<noteq> []"
  proof -
    have "last (free_list s) \<in> set (free_list s)" using that by simp
    with tf that show ?thesis by auto
  qed
  show ?thesis
    using ok new fetch order len by (simp add: s1)
qed

lemma delete_example:
  "map_option (\<lambda>s. (page_table s 0, pin_count (pages s ! 1), free_list s,
       fst (DeletePgImp s 0), free_list (snd (DeletePgImp s 0)),
       map_option fst (NewPgImp (snd (DeletePgImp s 0)) 0),
       pin_lists (replacer (snd (DeletePgImp s 0)))))
     (pool_after 2 [NewPage, UnpinPage 0 False]) =
   Some (Some 1, 0, [0], True, [1, 0], Some (Some 0), [1])"
  by code_simp

theorem DeletePgImp_unpinned_witness:
  "(case pool_after 2 [NewPage, UnpinPage 0 False] of
      None \<Rightarrow> False
    | Some s \<Rightarrow>
        page_table s 0 = Some 1 \<and> pin_count (pages s ! 1) = 0 \<and>
        fst (DeletePgImp s 0) \<and>
        page_id (pages (snd (DeletePgImp s 0)) ! 1) = INVALID_PAGE_ID \<and>
        free_list (snd (DeletePgImp s 0)) = [1, 0] \<and>
        fst (FetchPgImp (snd (DeletePgImp s 0)) 0) = Some 0)"
proof -
  obtain s where s: "pool_after 2 [NewPage, UnpinPage 0 False] = Some s"
    using delete_example by blast
  with delete_example have f: "page_table s 0 = Some 1" "pin_count (pages s ! 1) = 0"
    "free_list s = [0]" by simp_all
  from DeletePgImp_unpinned_spec [OF pool_after_reachable [OF s] f(1,2)] s f
  show ?thesis by simp
qed

text \<open>
  In a pool of two frames, after \<^verbatim>\<open>NewPage\<close> (page 0 in frame 1) and \<^verbatim>\<open>UnpinPage(0, false)\<close>,
  \<^verbatim>\<open>DeletePage(0)\<close> leaves the free list \<open>[1, 0]\<close>; the next \<^verbatim>\<open>NewPage\<close> takes frame 0, not the
  deleted frame 1, and frame 1 is still in the replacer's list.
\<close>

theorem DeletePgImp_reuse_counterexample:
  "(case pool_after 2 [NewPage, UnpinPage 0 False] of
      None \<Rightarrow> False
    | Some s \<Rightarrow>
        page_table s 0 = Some 1 \<and> pin_count (pages s ! 1) = 0 \<and> free_list s = [0] \<and>
        fst (DeletePgImp s 0) \<and> free_list (snd (DeletePgImp s 0)) = [1, 0] \<and>
        map_option fst (NewPgImp (snd (DeletePgImp s 0)) 0) = Some (Some 0) \<and>
        pin_lists (replacer (snd (DeletePgImp s 0))) = [1])"
  using delete_example by (auto split: option.splits)

section \<open>A pinned page can be evicted\<close>

lemma evict_pinned_run:
  "map_option (\<lambda>s. (page_table s 5, pin_count (pages s ! 0), free_list s,
       fst (Victim (replacer s)),
       map_option (\<lambda>(res, out, s'). (res, out, page_table s' 5, page_table s' 1, page_id (pages s' ! 0)))
         (NewPgImp s 0)))
     (pool_after 1 [NewPage, UnpinPage 0 False, DeletePage 0, FetchPage 5]) =
   Some (Some 0, 1, [], Some 0, Some (Some 0, 1, None, Some 0, 1))"
  by code_simp

text \<open>
  C1. A frame with a positive pin count is never the eviction victim. The code does not keep
  this: in a pool of one frame, after \<^verbatim>\<open>NewPage\<close> (page 0), \<^verbatim>\<open>UnpinPage(0, false)\<close>,
  \<^verbatim>\<open>DeletePage(0)\<close> and \<^verbatim>\<open>FetchPage(5)\<close>, page 5 is resident in frame 0 with pin count 1
  and was never unpinned, yet the replacer still lists frame 0; the next \<^verbatim>\<open>NewPage\<close> takes
  frame 0 as its victim, succeeds with identifier 1 and drops page 5 from the page table.
\<close>

theorem pinned_page_evicted:
  "(case pool_after 1 [NewPage, UnpinPage 0 False, DeletePage 0, FetchPage 5] of
      None \<Rightarrow> False
    | Some s \<Rightarrow>
        page_table s 5 = Some 0 \<and> pin_count (pages s ! 0) = 1 \<and> free_list s = [] \<and>
        fst (Victim (replacer s)) = Some 0 \<and>
        (case NewPgImp s 0 of
           None \<Rightarrow> False
         | Some (res, out, s') \<Rightarrow>
             res = Some 0 \<and> out = 1 \<and> page_table s' 5 = None \<and> page_table s' 1 = Some 0 \<and>
             page_id (pages s' ! 0) = 1))"
  using evict_pinned_run by (auto split: option.splits)

section \<open>A fetched frame can stay eligible\<close>

lemma fetch_after_delete_run:
  "map_option (\<lambda>s. (page_table s 5, free_list s, fst (FetchPgImp s 5),
       page_id (pages (snd (FetchPgImp s 5)) ! 0), pin_count (pages (snd (FetchPgImp s 5)) ! 0),
       data (pages (snd (FetchPgImp s 5)) ! 0), page_table (snd (FetchPgImp s 5)) 5,
       pin_lists (replacer (snd (FetchPgImp s 5))),
       pin_map_table (replacer (snd (FetchPgImp s 5))) 0))
     (pool_after 1 [NewPage, UnpinPage 0 False, DeletePage 0]) =
   Some (None, [0], Some 0, 5, 1, [5, 5], Some 0, [0], Some It_node)"
  by code_simp

text \<open>
  C4. A \<^verbatim>\<open>FetchPage\<close> of a page that is not resident reads the page into the acquired frame,
  sets \<^verbatim>\<open>page_id_\<close>, pin count 1 and a clean flag, records the page in the page table and
  marks the frame ineligible in the replacer. The code does all but the last: the miss path
  of \<^verbatim>\<open>FetchPgImp\<close> never calls \<^verbatim>\<open>replacer_->Pin\<close>. In a pool of one frame, after
  \<^verbatim>\<open>NewPage\<close>, \<^verbatim>\<open>UnpinPage(0, false)\<close> and \<^verbatim>\<open>DeletePage(0)\<close>, frame 0 is in the free list and
  still in the replacer; \<^verbatim>\<open>FetchPage(5)\<close> loads page 5 into it with pin count 1, and the frame
  is still in the replacer's list afterwards.
\<close>

theorem fetched_frame_stays_eligible:
  "(case pool_after 1 [NewPage, UnpinPage 0 False, DeletePage 0] of
      None \<Rightarrow> False
    | Some s \<Rightarrow>
        page_table s 5 = None \<and> free_list s = [0] \<and>
        fst (FetchPgImp s 5) = Some 0 \<and>
        page_id (pages (snd (FetchPgImp s 5)) ! 0) = 5 \<and>
        pin_count (pages (snd (FetchPgImp s 5)) ! 0) = 1 \<and>
        data (pages (snd (FetchPgImp s 5)) ! 0) = [5, 5] \<and>
        page_table (snd (FetchPgImp s 5)) 5 = Some 0 \<and>
        pin_lists (replacer (snd (FetchPgImp s 5))) = [0] \<and>
        pin_map_table (replacer (snd (FetchPgImp s 5))) 0 = Some It_node)"
  using fetch_after_delete_run by (auto split: option.splits)

end
